theory Spec2Isabelle
  imports Complex_Main
begin

section \<open>Tile catalog (wfc\_generator.py, class Tile)\<close>

text \<open>
  The four direction keys of a tile's edge dictionary. The source spells them as the
  strings 'north', 'south', 'east', 'west'.
\<close>

datatype direction = North | South | East | West

text \<open>
  The exceptions and failure outcomes of the source. \<open>KeyError\<close>, \<open>IndexError\<close> and
  \<open>ValueError\<close> are uncaught Python exceptions. \<open>Contradiction x y\<close> is the outcome of
  \<open>generate\<close> that prints "Contradiction detected" and "Failed at cell (x, y)" and returns
  None; \<open>MaxIterations\<close> is the outcome that prints "Max iterations reached" and returns
  None.
\<close>

datatype failure = KeyError | IndexError | ValueError | Contradiction int int | MaxIterations

text \<open>
  One entry of the "tiles" array of the catalog document, as \<open>Tile.__init__\<close> reads it.
  Every key may be absent (\<open>None\<close>): "id", "name" and "edges" are read with
  \<open>tile_data[...]\<close>, which raises KeyError on a missing key, "weight", "row" and "col"
  with \<open>tile_data.get\<close>; and "edges" is a dictionary that may lack direction keys. The
  document is taken as well-typed JSON: a key that is present has a value of the type
  the program expects.
\<close>

record tile_data =
  d_id :: "int option"
  d_name :: "string option"
  d_edges :: "(direction \<rightharpoonup> string) option"
  d_weight :: "rat option"
  d_row :: "int option"
  d_col :: "int option"

record tile =
  tile_id :: int
  name :: string
  edges :: "direction \<rightharpoonup> string"
  weight :: rat
  row :: int
  col :: int

definition Tile_init :: "tile_data \<Rightarrow> failure + tile" where
  "Tile_init td =
     (case d_id td of
        None \<Rightarrow> Inl KeyError
      | Some i \<Rightarrow>
          (case d_name td of
             None \<Rightarrow> Inl KeyError
           | Some n \<Rightarrow>
               (case d_edges td of
                  None \<Rightarrow> Inl KeyError
                | Some e \<Rightarrow>
                    Inr \<lparr> tile_id = i,
                          name = n,
                          edges = e,
                          weight = (case d_weight td of None \<Rightarrow> 1 | Some w \<Rightarrow> w),
                          row = (case d_row td of None \<Rightarrow> 0 | Some r \<Rightarrow> r),
                          col = (case d_col td of None \<Rightarrow> 0 | Some c \<Rightarrow> c) \<rparr>)))"

fun opposite :: "direction \<Rightarrow> direction" where
  "opposite North = South"
| "opposite South = North"
| "opposite East = West"
| "opposite West = East"

text \<open>\<open>Tile.can_connect\<close>: both dictionary lookups raise KeyError on a missing key.\<close>

definition can_connect :: "tile \<Rightarrow> tile \<Rightarrow> direction \<Rightarrow> failure + bool" where
  "can_connect self other d =
     (case edges self d of
        None \<Rightarrow> Inl KeyError
      | Some my_edge \<Rightarrow>
          (case edges other (opposite d) of
             None \<Rightarrow> Inl KeyError
           | Some their_edge \<Rightarrow> Inr (my_edge = their_edge)))"

section \<open>The generator object (class WFCGenerator)\<close>

text \<open>
  A Python set of tile identifiers is modelled as a list without repetitions; the order
  of the list stands for the iteration order of the set, which the language leaves open.
  CPython iterates a set of integers in the order of its hash slots; the model does not
  reproduce that order, so it does not say which tile a given random draw selects in
  the program.
  The value \<open>rules[tile_id]\<close> is a dictionary that always has the four direction keys, so
  it is a total function on directions.
\<close>

type_synonym idset = "int list"
type_synonym rule_entry = "direction \<Rightarrow> idset"
type_synonym rules = "int \<rightharpoonup> rule_entry"

text \<open>
  The parsed catalog document \<open>data\<close>: its keys "tileset" and "tiles" may be absent.
  The tileset description is not interpreted by the generator; it is kept as a list of
  key-value pairs.
\<close>

type_synonym tileset = "(string \<times> string) list"

record document =
  doc_tileset :: "tileset option"
  doc_tiles :: "tile_data list option"

record generator =
  tileset_info :: tileset
  tiles :: "tile list"
  tile_by_id :: "int \<rightharpoonup> tile"
  adjacency_rules :: rules

text \<open>The inner loop \<open>for direction in ['north', 'south', 'east', 'west']\<close>.\<close>

fun add_directions :: "tile \<Rightarrow> tile \<Rightarrow> direction list \<Rightarrow> rule_entry \<Rightarrow> failure + rule_entry" where
  "add_directions t other [] e = Inr e"
| "add_directions t other (d # ds) e =
     (case can_connect t other d of
        Inl x \<Rightarrow> Inl x
      | Inr b \<Rightarrow> add_directions t other ds
                  (if b then e(d := List.insert (tile_id other) (e d)) else e))"

text \<open>The loop \<open>for other in self.tiles\<close>.\<close>

fun add_others :: "tile \<Rightarrow> tile list \<Rightarrow> rule_entry \<Rightarrow> failure + rule_entry" where
  "add_others t [] e = Inr e"
| "add_others t (other # os) e =
     (case add_directions t other [North, South, East, West] e of
        Inl x \<Rightarrow> Inl x
      | Inr e' \<Rightarrow> add_others t os e')"

text \<open>
  The loop \<open>for tile in self.tiles\<close>: the entry of \<open>tile.id\<close> is replaced by four empty
  sets and then filled; a later tile with the same id overwrites the entry.
\<close>

fun rules_loop :: "tile list \<Rightarrow> tile list \<Rightarrow> rules \<Rightarrow> failure + rules" where
  "rules_loop all_tiles [] rs = Inr rs"
| "rules_loop all_tiles (t # ts) rs =
     (case add_others t all_tiles (\<lambda>d. []) of
        Inl x \<Rightarrow> Inl x
      | Inr e \<Rightarrow> rules_loop all_tiles ts (rs(tile_id t \<mapsto> e)))"

definition compute_adjacency_rules :: "tile list \<Rightarrow> failure + rules" where
  "compute_adjacency_rules ts = rules_loop ts ts Map.empty"

text \<open>
  The dictionary comprehension \<open>{t.id: t for t in self.tiles}\<close>: the last tile with a
  given id wins.
\<close>

definition make_tile_by_id :: "tile list \<Rightarrow> (int \<rightharpoonup> tile)" where
  "make_tile_by_id ts = map_of (rev (map (\<lambda>t. (tile_id t, t)) ts))"

text \<open>A list comprehension whose element expression may raise.\<close>

fun collect :: "('a \<Rightarrow> failure + 'b) \<Rightarrow> 'a list \<Rightarrow> failure + 'b list" where
  "collect f [] = Inr []"
| "collect f (a # as) =
     (case f a of
        Inl e \<Rightarrow> Inl e
      | Inr b \<Rightarrow> (case collect f as of Inl e \<Rightarrow> Inl e | Inr bs \<Rightarrow> Inr (b # bs)))"

text \<open>
  \<open>WFCGenerator.__init__\<close>, from the parsed document: \<open>data["tileset"]\<close>, then
  \<open>[Tile(t) for t in data["tiles"]]\<close>, the dictionary of tiles by id, and the adjacency
  rules. Opening and parsing the file are left out.
\<close>

definition WFCGenerator_init :: "document \<Rightarrow> failure + generator" where
  "WFCGenerator_init doc =
     (case doc_tileset doc of
        None \<Rightarrow> Inl KeyError
      | Some info \<Rightarrow>
          (case doc_tiles doc of
             None \<Rightarrow> Inl KeyError
           | Some tds \<Rightarrow>
               (case collect Tile_init tds of
                  Inl x \<Rightarrow> Inl x
                | Inr ts \<Rightarrow>
                    (case compute_adjacency_rules ts of
                       Inl x \<Rightarrow> Inl x
                     | Inr rs \<Rightarrow>
                         Inr \<lparr> tileset_info = info, tiles = ts,
                               tile_by_id = make_tile_by_id ts, adjacency_rules = rs \<rparr>))))"

section \<open>Python lists and the random module\<close>

text \<open>
  \<open>xs[i]\<close> and \<open>xs[i] = v\<close> on a Python list: an index below zero counts from the end,
  and an index outside the list raises IndexError.
\<close>

definition py_index :: "'a list \<Rightarrow> int \<Rightarrow> failure + 'a" where
  "py_index xs i =
     (let n = int (length xs) in
      if 0 \<le> i \<and> i < n then Inr (xs ! nat i)
      else if - n \<le> i \<and> i < 0 then Inr (xs ! nat (n + i))
      else Inl IndexError)"

definition py_store :: "'a list \<Rightarrow> int \<Rightarrow> 'a \<Rightarrow> failure + 'a list" where
  "py_store xs i v =
     (let n = int (length xs) in
      if 0 \<le> i \<and> i < n then Inr (xs[nat i := v])
      else if - n \<le> i \<and> i < 0 then Inr (xs[nat (n + i) := v])
      else Inl IndexError)"

text \<open>\<open>g[y][x]\<close> and \<open>g[y][x] = v\<close> on a list of rows.\<close>

definition get2 :: "'a list list \<Rightarrow> int \<Rightarrow> int \<Rightarrow> failure + 'a" where
  "get2 g y x = (case py_index g y of Inl e \<Rightarrow> Inl e | Inr r \<Rightarrow> py_index r x)"

definition set2 :: "'a list list \<Rightarrow> int \<Rightarrow> int \<Rightarrow> 'a \<Rightarrow> failure + 'a list list" where
  "set2 g y x v =
     (case py_index g y of
        Inl e \<Rightarrow> Inl e
      | Inr r \<Rightarrow> (case py_store r x v of Inl e \<Rightarrow> Inl e | Inr r' \<Rightarrow> py_store g y r'))"

definition py_range :: "int \<Rightarrow> int list" where
  "py_range n = map int [0..<nat n]"

text \<open>
  The state of the module-level generator of \<open>random\<close> is the stream of integers
  it will still produce. \<open>random.random()\<close> returns the next one, taken to 53 bits, divided by \<open>2^53\<close>, a
  value in \<open>[0, 1)\<close>. The Mersenne Twister behind the stream is not modelled, and the
  floating-point products and sums of the source are taken as exact rationals.
\<close>

type_synonym rng = "nat \<Rightarrow> int"

definition random_value :: "rng \<Rightarrow> rat" where
  "random_value r = of_int (r 0 mod 9007199254740992) / 9007199254740992"

definition random_rest :: "rng \<Rightarrow> rng" where
  "random_rest r = (\<lambda>n. r (Suc n))"

text \<open>\<open>itertools.accumulate\<close>: the running sums of the weights.\<close>

fun accumulate_from :: "rat \<Rightarrow> rat list \<Rightarrow> rat list" where
  "accumulate_from acc [] = []"
| "accumulate_from acc (w # ws) = (acc + w) # accumulate_from (acc + w) ws"

definition accumulate :: "rat list \<Rightarrow> rat list" where
  "accumulate ws = accumulate_from 0 ws"

text \<open>
  \<open>bisect.bisect_right(a, x, lo, hi)\<close>. It reads \<open>a[mid]\<close> only for \<open>mid < hi\<close>, and
  \<open>random.choices\<close> calls it with \<open>hi = len(a) - 1\<close>.
\<close>

function bisect_right :: "rat list \<Rightarrow> rat \<Rightarrow> nat \<Rightarrow> nat \<Rightarrow> nat" where
  "bisect_right a x lo hi =
     (if lo < hi then
        (let mid = (lo + hi) div 2 in
         if x < a ! mid then bisect_right a x lo mid else bisect_right a x (mid + 1) hi)
      else lo)"
  by pat_completeness auto
termination
  by (relation "measure (\<lambda>(a, x, lo, hi). hi - lo)") auto

declare bisect_right.simps [simp del]

text \<open>
  \<open>random.choices(population, weights=weights, k=1)[0]\<close> as CPython's random.py has it:
  it raises IndexError on an empty population (\<open>cum_weights[-1]\<close>), ValueError when the
  weights do not sum to more than zero, and draws one random number otherwise.
\<close>

definition random_choices :: "'a list \<Rightarrow> rat list \<Rightarrow> rng \<Rightarrow> failure + ('a \<times> rng)" where
  "random_choices population weights r =
     (let n = length population; cum_weights = accumulate weights in
      if length cum_weights \<noteq> n then Inl ValueError
      else if cum_weights = [] then Inl IndexError
      else
        (let total = last cum_weights in
         if total \<le> 0 then Inl ValueError
         else Inr (population ! bisect_right cum_weights (random_value r * total) 0 (n - 1),
                   random_rest r)))"

section \<open>Selecting and collapsing a cell\<close>

definition is_fully_collapsed :: "bool list list \<Rightarrow> bool" where
  "is_fully_collapsed cs = list_all (\<lambda>row. list_all (\<lambda>c. c) row) cs"

text \<open>
  The cells in the order of the two nested \<open>for\<close> loops of \<open>_find_min_entropy_cell\<close>:
  \<open>y\<close> over \<open>range(len(possibilities))\<close>, \<open>x\<close> over \<open>range(len(possibilities[0]))\<close>.
\<close>

definition scan_order :: "'a list list \<Rightarrow> (int \<times> int) list" where
  "scan_order ps =
     (case ps of
        [] \<Rightarrow> []
      | row0 # _ \<Rightarrow>
          concat (map (\<lambda>y. map (\<lambda>x. (int y, int x)) [0..<length row0]) [0..<length ps]))"

text \<open>
  The body of the two loops. \<open>min_entropy\<close> starts as \<open>float('inf')\<close>, here \<open>None\<close>.
  A cell with no possibility left makes the function return None at once.
\<close>

fun scan_cells ::
  "idset list list \<Rightarrow> bool list list \<Rightarrow> (int \<times> int) list \<Rightarrow> rat option \<Rightarrow> (int \<times> int) option
     \<Rightarrow> rng \<Rightarrow> failure + ((int \<times> int) option \<times> rng)" where
  "scan_cells ps cs [] min_entropy min_cell r = Inr (min_cell, r)"
| "scan_cells ps cs ((y, x) # rest) min_entropy min_cell r =
     (case get2 cs y x of
        Inl e \<Rightarrow> Inl e
      | Inr c \<Rightarrow>
          if c then scan_cells ps cs rest min_entropy min_cell r
          else
            (case get2 ps y x of
               Inl e \<Rightarrow> Inl e
             | Inr p \<Rightarrow>
                 if length p = 0 then Inr (None, r)
                 else
                   (let entropy_with_noise = of_nat (length p) + random_value r * (1 / 10) in
                    if (case min_entropy of None \<Rightarrow> True | Some m \<Rightarrow> entropy_with_noise < m)
                    then scan_cells ps cs rest (Some entropy_with_noise) (Some (y, x)) (random_rest r)
                    else scan_cells ps cs rest min_entropy min_cell (random_rest r))))"

definition find_min_entropy_cell ::
  "idset list list \<Rightarrow> bool list list \<Rightarrow> rng \<Rightarrow> failure + ((int \<times> int) option \<times> rng)" where
  "find_min_entropy_cell ps cs r = scan_cells ps cs (scan_order ps) None None r"

definition collapse_cell :: "generator \<Rightarrow> idset \<Rightarrow> rng \<Rightarrow> failure + (int \<times> rng)" where
  "collapse_cell g possible_tiles r =
     (case collect (\<lambda>tid. case tile_by_id g tid of None \<Rightarrow> Inl KeyError | Some t \<Rightarrow> Inr t)
             possible_tiles of
        Inl e \<Rightarrow> Inl e
      | Inr ts \<Rightarrow>
          (case random_choices ts (map weight ts) r of
             Inl e \<Rightarrow> Inl e
           | Inr (chosen, r') \<Rightarrow> Inr (tile_id chosen, r')))"

section \<open>Propagation\<close>

text \<open>
  The set \<open>valid_for_neighbor\<close>: the union of \<open>adjacency_rules[t][direction]\<close> over the
  tiles \<open>t\<close> still possible in the current cell.
\<close>

fun valid_for_neighbor :: "rules \<Rightarrow> idset \<Rightarrow> direction \<Rightarrow> failure + idset" where
  "valid_for_neighbor rs [] d = Inr []"
| "valid_for_neighbor rs (t # ts) d =
     (case rs t of
        None \<Rightarrow> Inl KeyError
      | Some e \<Rightarrow>
          (case valid_for_neighbor rs ts d of
             Inl x \<Rightarrow> Inl x
           | Inr v \<Rightarrow> Inr (List.union (e d) v)))"

text \<open>
  The loop over the four neighbours of the cell popped from the stack. The result \<open>None\<close>
  is \<open>return False\<close>. The top of the stack is the head of the list.
\<close>

fun propagate_neighbors ::
  "generator \<Rightarrow> idset \<Rightarrow> bool list list \<Rightarrow> int \<Rightarrow> int \<Rightarrow> (int \<times> int \<times> direction) list
     \<Rightarrow> idset list list \<Rightarrow> (int \<times> int) list
     \<Rightarrow> failure + (idset list list \<times> (int \<times> int) list) option" where
  "propagate_neighbors g current_tiles cs width height [] ps stack = Inr (Some (ps, stack))"
| "propagate_neighbors g current_tiles cs width height ((nx, ny, d) # ns) ps stack =
     (if nx < 0 \<or> nx \<ge> width \<or> ny < 0 \<or> ny \<ge> height
      then propagate_neighbors g current_tiles cs width height ns ps stack
      else
        (case get2 cs ny nx of
           Inl e \<Rightarrow> Inl e
         | Inr c \<Rightarrow>
             if c then propagate_neighbors g current_tiles cs width height ns ps stack
             else
               (case valid_for_neighbor (adjacency_rules g) current_tiles d of
                  Inl e \<Rightarrow> Inl e
                | Inr valid \<Rightarrow>
                    (case get2 ps ny nx of
                       Inl e \<Rightarrow> Inl e
                     | Inr old_possibilities \<Rightarrow>
                         (let new_possibilities =
                                filter (\<lambda>t. t \<in> set valid) old_possibilities in
                          if length new_possibilities = 0 then Inr None
                          else if length new_possibilities < length old_possibilities then
                            (case set2 ps ny nx new_possibilities of
                               Inl e \<Rightarrow> Inl e
                             | Inr ps' \<Rightarrow>
                                 propagate_neighbors g current_tiles cs width height ns ps'
                                   ((nx, ny) # stack))
                          else propagate_neighbors g current_tiles cs width height ns ps stack)))))"

text \<open>
  \<open>_propagate\<close>: the loop \<open>while stack\<close>. The result \<open>Some ps\<close> is \<open>return True\<close> with the
  possibilities as the loop left them, \<open>None\<close> is \<open>return False\<close>; the caller then drops
  the grid.
\<close>

function propagate_loop ::
  "generator \<Rightarrow> bool list list \<Rightarrow> int \<Rightarrow> int \<Rightarrow> idset list list \<Rightarrow> (int \<times> int) list
     \<Rightarrow> failure + idset list list option" where
  "propagate_loop g cs width height ps [] = Inr (Some ps)"
| "propagate_loop g cs width height ps ((cx, cy) # stack) =
     (case get2 ps cy cx of
        Inl e \<Rightarrow> Inl e
      | Inr current_tiles \<Rightarrow>
          (case propagate_neighbors g current_tiles cs width height
                  [(cx, cy - 1, North), (cx, cy + 1, South), (cx + 1, cy, East), (cx - 1, cy, West)]
                  ps stack of
             Inl e \<Rightarrow> Inl e
           | Inr None \<Rightarrow> Inr None
           | Inr (Some (ps', stack')) \<Rightarrow> propagate_loop g cs width height ps' stack'))"
  by pat_completeness auto

definition propagate ::
  "generator \<Rightarrow> idset list list \<Rightarrow> bool list list \<Rightarrow> int \<Rightarrow> int \<Rightarrow> int \<Rightarrow> int
     \<Rightarrow> failure + idset list list option" where
  "propagate g ps cs x y width height = propagate_loop g cs width height ps [(x, y)]"

section \<open>The main loop (WFCGenerator.generate)\<close>

record wfc_state =
  possibilities :: "idset list list"
  collapsed :: "bool list list"
  iterations :: int
  random_state :: rng

datatype step = Break wfc_state | Continue wfc_state

text \<open>
  One pass through the body of the \<open>while\<close> loop. \<open>Break\<close> is the \<open>break\<close> taken when
  \<open>_find_min_entropy_cell\<close> returns None; a failed propagation leaves \<open>generate\<close> with None
  after printing the coordinates of the cell that was collapsed.
\<close>

definition loop_body :: "generator \<Rightarrow> int \<Rightarrow> int \<Rightarrow> wfc_state \<Rightarrow> failure + step" where
  "loop_body g width height st =
     (case find_min_entropy_cell (possibilities st) (collapsed st) (random_state st) of
        Inl e \<Rightarrow> Inl e
      | Inr (None, r1) \<Rightarrow>
          Inr (Break (st\<lparr>iterations := iterations st + 1, random_state := r1\<rparr>))
      | Inr (Some (y, x), r1) \<Rightarrow>
          (case get2 (possibilities st) y x of
             Inl e \<Rightarrow> Inl e
           | Inr cell \<Rightarrow>
               (case collapse_cell g cell r1 of
                  Inl e \<Rightarrow> Inl e
                | Inr (chosen_tile, r2) \<Rightarrow>
                    (case set2 (possibilities st) y x [chosen_tile] of
                       Inl e \<Rightarrow> Inl e
                     | Inr ps1 \<Rightarrow>
                         (case set2 (collapsed st) y x True of
                            Inl e \<Rightarrow> Inl e
                          | Inr cs1 \<Rightarrow>
                              (case propagate g ps1 cs1 x y width height of
                                 Inl e \<Rightarrow> Inl e
                               | Inr None \<Rightarrow> Inl (Contradiction x y)
                               | Inr (Some ps2) \<Rightarrow>
                                   Inr (Continue
                                     \<lparr> possibilities = ps2, collapsed = cs1,
                                       iterations = iterations st + 1,
                                       random_state = r2 \<rparr>)))))))"

function wfc_loop :: "generator \<Rightarrow> int \<Rightarrow> int \<Rightarrow> int \<Rightarrow> wfc_state \<Rightarrow> failure + wfc_state" where
  "wfc_loop g width height max_iterations st =
     (if \<not> is_fully_collapsed (collapsed st) \<and> iterations st < max_iterations then
        (case loop_body g width height st of
           Inl e \<Rightarrow> Inl e
         | Inr (Break st') \<Rightarrow> Inr st'
         | Inr (Continue st') \<Rightarrow> wfc_loop g width height max_iterations st')
      else Inr st)"
  by pat_completeness auto

text \<open>\<open>all_tile_ids = set(t.id for t in self.tiles)\<close>.\<close>

definition all_tile_ids :: "generator \<Rightarrow> idset" where
  "all_tile_ids g = remdups (map tile_id (tiles g))"

definition initial_state :: "generator \<Rightarrow> int \<Rightarrow> int \<Rightarrow> rng \<Rightarrow> wfc_state" where
  "initial_state g width height r =
     \<lparr> possibilities = replicate (nat height) (replicate (nat width) (all_tile_ids g)),
       collapsed = replicate (nat height) (replicate (nat width) False),
       iterations = 0,
       random_state = r \<rparr>"

text \<open>
  \<open>[[list(possibilities[y][x])[0] for x in range(width)] for y in range(height)]\<close>;
  \<open>list(s)[0]\<close> raises IndexError on an empty set.
\<close>

definition final_grid :: "idset list list \<Rightarrow> int \<Rightarrow> int \<Rightarrow> failure + int list list" where
  "final_grid ps width height =
     collect (\<lambda>y. collect (\<lambda>x. case get2 ps y x of
                                   Inl e \<Rightarrow> Inl e
                                 | Inr s \<Rightarrow> (case s of [] \<Rightarrow> Inl IndexError | t # _ \<Rightarrow> Inr t))
                          (py_range width))
             (py_range height)"

text \<open>
  \<open>generate(width, height, seed)\<close>. \<open>random_seed\<close> is the state that \<open>random.seed(seed)\<close>
  installs, \<open>ambient\<close> the state of the module-level generator before the call. The
  result is the returned grid (rows of tile ids, \<open>grid[y][x]\<close>) or the failure.
\<close>

definition generate ::
  "(int \<Rightarrow> rng) \<Rightarrow> generator \<Rightarrow> int \<Rightarrow> int \<Rightarrow> int option \<Rightarrow> rng \<Rightarrow> failure + int list list" where
  "generate random_seed g width height seed ambient =
     (let r = (case seed of None \<Rightarrow> ambient | Some s \<Rightarrow> random_seed s);
          max_iterations = width * height * 100 in
      case wfc_loop g width height max_iterations (initial_state g width height r) of
        Inl e \<Rightarrow> Inl e
      | Inr st \<Rightarrow>
          if iterations st \<ge> max_iterations then Inl MaxIterations
          else final_grid (possibilities st) width height)"

section \<open>The two-tile catalog of the specification's scenario\<close>

text \<open>
  Tile A with the label "grass" on all four edges and tile B with the label "water" on
  all four edges, both with the default weight.
\<close>

definition tile_A :: tile_data where
  "tile_A = \<lparr> d_id = Some 0, d_name = Some ''A'', d_edges = Some (\<lambda>d. Some ''grass''),
               d_weight = None, d_row = None, d_col = None \<rparr>"

definition tile_B :: tile_data where
  "tile_B = \<lparr> d_id = Some 1, d_name = Some ''B'', d_edges = Some (\<lambda>d. Some ''water''),
               d_weight = None, d_row = None, d_col = None \<rparr>"

definition grass_water :: "tile_data list" where
  "grass_water = [tile_A, tile_B]"

definition grass_water_document :: document where
  "grass_water_document = \<lparr> doc_tileset = Some [], doc_tiles = Some grass_water \<rparr>"

text \<open>
  The tile objects, the adjacency table and the generator object that the constructor
  builds from this document.
\<close>

definition grass_water_objects :: "tile list" where
  "grass_water_objects =
     [\<lparr> tile_id = 0, name = ''A'', edges = (\<lambda>d. Some ''grass''), weight = 1, row = 0, col = 0 \<rparr>,
      \<lparr> tile_id = 1, name = ''B'', edges = (\<lambda>d. Some ''water''), weight = 1, row = 0, col = 0 \<rparr>]"

definition grass_water_rules :: rules where
  "grass_water_rules = [0 \<mapsto> (\<lambda>d. [0]), 1 \<mapsto> (\<lambda>d. [1])]"

definition grass_water_generator :: generator where
  "grass_water_generator =
     \<lparr> tileset_info = [],
       tiles = grass_water_objects,
       tile_by_id = make_tile_by_id grass_water_objects,
       adjacency_rules = grass_water_rules \<rparr>"

section \<open>Further catalogs used as examples\<close>

text \<open>The document with an empty "tiles" array and the generator built from it.\<close>

definition empty_document :: document where
  "empty_document = \<lparr> doc_tileset = Some [], doc_tiles = Some [] \<rparr>"

definition empty_generator :: generator where
  "empty_generator =
     \<lparr> tileset_info = [], tiles = [], tile_by_id = make_tile_by_id [],
       adjacency_rules = Map.empty \<rparr>"

text \<open>Two tiles with the identifier 0, the second with weight -1.\<close>

definition duplicate_catalog :: "tile_data list" where
  "duplicate_catalog = [tile_A, tile_A\<lparr>d_weight := Some (- 1)\<rparr>]"

definition duplicate_document :: document where
  "duplicate_document = \<lparr> doc_tileset = Some [], doc_tiles = Some duplicate_catalog \<rparr>"

text \<open>A tile whose edges lack the north label.\<close>

definition missing_north :: document where
  "missing_north =
     \<lparr> doc_tileset = Some [],
       doc_tiles = Some [tile_B,
         tile_A\<lparr>d_edges := Some (\<lambda>d. if d = North then None else Some ''grass'')\<rparr>] \<rparr>"

text \<open>
  Three tiles, the last two with the identifier 1: tile 0 and the first tile 1 have the
  label "a" on every edge, the second tile 1 has the label "b". The table and the
  generator are the ones the constructor builds; the dictionary of tiles by id keeps the
  last tile of each identifier.
\<close>

definition shared_id_objects :: "tile list" where
  "shared_id_objects =
     [\<lparr> tile_id = 0, name = ''P'', edges = (\<lambda>d. Some ''a''), weight = 1, row = 0, col = 0 \<rparr>,
      \<lparr> tile_id = 1, name = ''Q'', edges = (\<lambda>d. Some ''a''), weight = 1, row = 0, col = 0 \<rparr>,
      \<lparr> tile_id = 1, name = ''R'', edges = (\<lambda>d. Some ''b''), weight = 1, row = 0, col = 0 \<rparr>]"

definition shared_id_document :: document where
  "shared_id_document =
     \<lparr> doc_tileset = Some [],
       doc_tiles = Some
         [\<lparr> d_id = Some 0, d_name = Some ''P'', d_edges = Some (\<lambda>d. Some ''a''),
             d_weight = None, d_row = None, d_col = None \<rparr>,
          \<lparr> d_id = Some 1, d_name = Some ''Q'', d_edges = Some (\<lambda>d. Some ''a''),
             d_weight = None, d_row = None, d_col = None \<rparr>,
          \<lparr> d_id = Some 1, d_name = Some ''R'', d_edges = Some (\<lambda>d. Some ''b''),
             d_weight = None, d_row = None, d_col = None \<rparr>] \<rparr>"

definition shared_id_rules :: rules where
  "shared_id_rules = [0 \<mapsto> (\<lambda>d. [1, 0]), 1 \<mapsto> (\<lambda>d. [1])]"

definition shared_id_generator :: generator where
  "shared_id_generator =
     \<lparr> tileset_info = [],
       tiles = shared_id_objects,
       tile_by_id = make_tile_by_id shared_id_objects,
       adjacency_rules = shared_id_rules \<rparr>"

section \<open>Auxiliary notions for the proofs\<close>

text \<open>The position that a Python index denotes in a list, when it denotes one.\<close>

definition py_pos :: "'a list \<Rightarrow> int \<Rightarrow> nat" where
  "py_pos xs i = (if 0 \<le> i then nat i else nat (int (length xs) + i))"

text \<open>The number of possibilities left in the whole grid.\<close>

definition total_size :: "idset list list \<Rightarrow> nat" where
  "total_size ps = sum_list (map (\<lambda>row. sum_list (map length row)) ps)"

text \<open>The keys whose absence makes the constructor raise KeyError.\<close>

definition missing_tile_key :: "tile_data \<Rightarrow> bool" where
  "missing_tile_key td = (d_id td = None \<or> d_name td = None \<or> d_edges td = None)"

definition missing_label :: "tile_data \<Rightarrow> bool" where
  "missing_label td = (case d_edges td of None \<Rightarrow> False | Some e \<Rightarrow> \<exists>d. e d = None)"

definition missing_key :: "document \<Rightarrow> bool" where
  "missing_key doc =
     (doc_tileset doc = None \<or>
      (case doc_tiles doc of
         None \<Rightarrow> True
       | Some tds \<Rightarrow> \<exists>td \<in> set tds. missing_tile_key td \<or> missing_label td))"

text \<open>Some direction label that \<open>can_connect\<close> reads for the pair is absent.\<close>

definition broken_pair :: "tile \<Rightarrow> tile \<Rightarrow> bool" where
  "broken_pair t other = (\<exists>d. edges t d = None \<or> edges other (opposite d) = None)"

definition broken_with :: "tile list \<Rightarrow> tile \<Rightarrow> bool" where
  "broken_with all_tiles t = (\<exists>other \<in> set all_tiles. broken_pair t other)"

text \<open>
  The number of possibilities of a cell and whether it is unresolved, and the invariant
  of the scan for the cell of minimum entropy: the running minimum belongs to an
  unresolved cell already seen and is below the entropy plus one of every such cell.
\<close>

definition entropy_at :: "idset list list \<Rightarrow> int \<times> int \<Rightarrow> nat" where
  "entropy_at ps c = (case get2 ps (fst c) (snd c) of Inl e \<Rightarrow> 0 | Inr p \<Rightarrow> length p)"

definition unresolved_at :: "bool list list \<Rightarrow> int \<times> int \<Rightarrow> bool" where
  "unresolved_at cs c = (get2 cs (fst c) (snd c) = Inr False)"

definition scan_good ::
  "idset list list \<Rightarrow> bool list list \<Rightarrow> (int \<times> int) set \<Rightarrow> rat option \<Rightarrow> (int \<times> int) option \<Rightarrow> bool" where
  "scan_good ps cs seen me mc =
     (case me of
        None \<Rightarrow> mc = None \<and> (\<forall>c' \<in> seen. \<not> unresolved_at cs c')
      | Some e \<Rightarrow>
          (\<exists>c0. mc = Some c0 \<and> c0 \<in> seen \<and> unresolved_at cs c0 \<and> of_nat (entropy_at ps c0) \<le> e
             \<and> (\<forall>c' \<in> seen. unresolved_at cs c' \<longrightarrow> e < of_nat (entropy_at ps c') + 1)))"

text \<open>
  Cell \<open>(y, x)\<close> lies in the grid of the given width and height; the content of such a
  cell; a grid of height rows of width cells.
\<close>

definition inb :: "int \<Rightarrow> int \<Rightarrow> int \<Rightarrow> int \<Rightarrow> bool" where
  "inb w h y x = (0 \<le> y \<and> y < h \<and> 0 \<le> x \<and> x < w)"

definition cell_at :: "'a list list \<Rightarrow> int \<Rightarrow> int \<Rightarrow> 'a" where
  "cell_at g y x = g ! nat y ! nat x"

definition shaped :: "int \<Rightarrow> int \<Rightarrow> 'a list list \<Rightarrow> bool" where
  "shaped w h g = (length g = nat h \<and> (\<forall>rw \<in> set g. length rw = nat w))"

text \<open>
  From \<open>ps\<close> to \<open>ps'\<close> no cell gains a possibility, collapsed cells are unchanged and
  no cell becomes empty.
\<close>

definition shrinks :: "int \<Rightarrow> int \<Rightarrow> bool list list \<Rightarrow> idset list list \<Rightarrow> idset list list \<Rightarrow> bool" where
  "shrinks w h cs ps ps' =
     (shaped w h ps' \<and>
      (\<forall>y x. inb w h y x \<longrightarrow>
         set (cell_at ps' y x) \<subseteq> set (cell_at ps y x)
         \<and> (cell_at cs y x \<longrightarrow> cell_at ps' y x = cell_at ps y x)
         \<and> (cell_at ps y x \<noteq> [] \<longrightarrow> cell_at ps' y x \<noteq> [])))"

text \<open>
  The shape of the two grids, and what every cell holds: identifiers of the catalog, and
  exactly one of them once the cell is collapsed.
\<close>

definition grid_ok :: "generator \<Rightarrow> int \<Rightarrow> int \<Rightarrow> idset list list \<Rightarrow> bool list list \<Rightarrow> bool" where
  "grid_ok g w h ps cs =
     (shaped w h ps \<and> shaped w h cs \<and>
      (\<forall>y x. inb w h y x \<longrightarrow>
         set (cell_at ps y x) \<subseteq> set (all_tile_ids g)
         \<and> (cell_at cs y x \<longrightarrow> (\<exists>t. cell_at ps y x = [t]))))"

text \<open>No unresolved cell is empty; collapsed cells keep their flag and their content.\<close>

definition no_empty :: "int \<Rightarrow> int \<Rightarrow> idset list list \<Rightarrow> bool list list \<Rightarrow> bool" where
  "no_empty w h ps cs = (\<forall>y x. inb w h y x \<longrightarrow> \<not> cell_at cs y x \<longrightarrow> cell_at ps y x \<noteq> [])"

definition frozen ::
  "int \<Rightarrow> int \<Rightarrow> idset list list \<Rightarrow> bool list list \<Rightarrow> idset list list \<Rightarrow> bool list list \<Rightarrow> bool" where
  "frozen w h ps cs ps' cs' =
     (\<forall>y x. inb w h y x \<longrightarrow> cell_at cs y x \<longrightarrow> cell_at cs' y x \<and> cell_at ps' y x = cell_at ps y x)"

text \<open>
  The grids a run passes through: a cell is selected and collapsed, or the neighbours of
  a cell are processed by the propagation. Every store into the two grids that
  \<open>generate\<close> and \<open>_propagate\<close> make is one of these steps.
\<close>

inductive evolves ::
  "generator \<Rightarrow> int \<Rightarrow> int \<Rightarrow> idset list list \<times> bool list list
     \<Rightarrow> idset list list \<times> bool list list \<Rightarrow> bool"
  for g :: generator and w :: int and h :: int where
  evolves_refl: "evolves g w h s s"
| evolves_collapse:
    "evolves g w h s (ps, cs) \<Longrightarrow> find_min_entropy_cell ps cs r = Inr (Some (y, x), r1)
     \<Longrightarrow> get2 ps y x = Inr cell \<Longrightarrow> collapse_cell g cell r1 = Inr (t, r2)
     \<Longrightarrow> set2 ps y x [t] = Inr ps1 \<Longrightarrow> set2 cs y x True = Inr cs1
     \<Longrightarrow> evolves g w h s (ps1, cs1)"
| evolves_neighbors:
    "evolves g w h s (ps, cs)
     \<Longrightarrow> propagate_neighbors g cur cs w h ns ps stack = Inr (Some (ps', stack'))
     \<Longrightarrow> evolves g w h s (ps', cs)"

text \<open>The cell next to \<open>(y, x)\<close> in a direction, as \<open>_propagate\<close> lists the neighbours.\<close>

fun neighbor :: "direction \<Rightarrow> int \<Rightarrow> int \<Rightarrow> int \<times> int" where
  "neighbor North y x = (y - 1, x)"
| "neighbor South y x = (y + 1, x)"
| "neighbor East y x = (y, x + 1)"
| "neighbor West y x = (y, x - 1)"

text \<open>Tile b is in \<open>rules[a][d]\<close>.\<close>

definition allowed :: "rules \<Rightarrow> int \<Rightarrow> direction \<Rightarrow> int \<Rightarrow> bool" where
  "allowed rs a d b = (\<exists>e. rs a = Some e \<and> b \<in> set (e d))"

text \<open>
  Tile id a may have tile id b as its neighbour in direction d: the tiles that the
  generator's dictionary gives for the two identifiers connect, that is, the edge label
  of the first towards d equals the label of the second on the opposite edge.
\<close>

definition compatible :: "generator \<Rightarrow> int \<Rightarrow> direction \<Rightarrow> int \<Rightarrow> bool" where
  "compatible g a d b =
     (\<exists>ta tb. tile_by_id g a = Some ta \<and> tile_by_id g b = Some tb
        \<and> can_connect ta tb d = Inr True)"

text \<open>Every possibility left next to a collapsed cell is allowed by the table.\<close>

definition adj_ok :: "generator \<Rightarrow> int \<Rightarrow> int \<Rightarrow> idset list list \<Rightarrow> bool list list \<Rightarrow> bool" where
  "adj_ok g w h ps cs =
     (\<forall>y x d t. inb w h y x \<and> cell_at cs y x \<and> cell_at ps y x = [t]
        \<and> inb w h (fst (neighbor d y x)) (snd (neighbor d y x))
        \<longrightarrow> (\<forall>t' \<in> set (cell_at ps (fst (neighbor d y x)) (snd (neighbor d y x))).
              allowed (adjacency_rules g) t d t'))"

section \<open>Termination of the two loops\<close>

lemma py_index_Inr:
  "py_index xs i = Inr v \<Longrightarrow> py_pos xs i < length xs \<and> v = xs ! py_pos xs i"
  by (auto simp: py_index_def py_pos_def Let_def split: if_splits)

lemma py_store_Inr:
  "py_store xs i w = Inr xs' \<Longrightarrow> py_pos xs i < length xs \<and> xs' = xs[py_pos xs i := w]"
  by (auto simp: py_store_def py_pos_def Let_def split: if_splits)

lemma sum_list_map_update:
  fixes f :: "'a \<Rightarrow> nat"
  assumes "k < length xs"
  shows "sum_list (map f (xs[k := w])) + f (xs ! k) = sum_list (map f xs) + f w"
  using assms
proof (induction xs arbitrary: k)
  case Nil
  then show ?case by simp
next
  case (Cons a xs)
  then show ?case by (cases k) (auto simp: add.assoc add.left_commute)
qed

lemma set2_total_size:
  assumes "get2 ps y x = Inr old" and "set2 ps y x new = Inr ps'"
  shows "total_size ps' + length old = total_size ps + length new"
proof -
  from assms(1) obtain rw where rw: "py_index ps y = Inr rw" and old: "py_index rw x = Inr old"
    by (auto simp: get2_def split: sum.splits)
  from assms(2) rw obtain rw' where rw': "py_store rw x new = Inr rw'"
    and ps': "py_store ps y rw' = Inr ps'"
    by (auto simp: set2_def split: sum.splits)
  let ?j = "py_pos ps y" and ?k = "py_pos rw x"
  have j: "?j < length ps" "rw = ps ! ?j" using py_index_Inr[OF rw] by auto
  have k: "?k < length rw" "old = rw ! ?k" using py_index_Inr[OF old] by auto
  have e1: "rw' = rw[?k := new]" using py_store_Inr[OF rw'] by simp
  have e2: "ps' = ps[?j := rw']" using py_store_Inr[OF ps'] by simp
  have "sum_list (map length rw') + length old = sum_list (map length rw) + length new"
    using sum_list_map_update[OF k(1), of length new] k(2) e1 by simp
  moreover have "total_size ps' + sum_list (map length rw)
      = total_size ps + sum_list (map length rw')"
    unfolding total_size_def e2
    using sum_list_map_update[OF j(1), of "\<lambda>row. sum_list (map length row)" rw'] j(2)
    by simp
  ultimately show ?thesis by linarith
qed

lemma propagate_neighbors_measure:
  "propagate_neighbors g cur cs w h ns ps stack = Inr (Some (ps', stack'))
   \<Longrightarrow> 2 * total_size ps' + length stack' \<le> 2 * total_size ps + length stack"
proof (induction g cur cs w h ns ps stack rule: propagate_neighbors.induct)
  case (1 g cur cs w h ps stack)
  then show ?case by simp
next
  case (2 g cur cs w h nx ny d ns ps stack)
  show ?case
  proof (cases "nx < 0 \<or> nx \<ge> w \<or> ny < 0 \<or> ny \<ge> h")
    case True
    with 2 show ?thesis by simp
  next
    case False
    note inb = this
    from "2.prems" inb obtain c where c: "get2 cs ny nx = Inr c"
      by (auto split: sum.splits)
    show ?thesis
    proof (cases c)
      case True
      with 2 inb c show ?thesis by simp
    next
      case False
      from "2.prems" inb c False obtain valid where v: "valid_for_neighbor (adjacency_rules g) cur d = Inr valid"
        by (auto split: sum.splits)
      from "2.prems" inb c False v obtain old where old: "get2 ps ny nx = Inr old"
        by (auto split: sum.splits)
      let ?new = "filter (\<lambda>t. t \<in> set valid) old"
      from "2.prems" inb c False v old have ne: "length ?new \<noteq> 0"
        by (auto simp: Let_def split: if_splits)
      show ?thesis
      proof (cases "length ?new < length old")
        case True
        from "2.prems" inb c False v old ne True obtain ps1 where
          ps1: "set2 ps ny nx ?new = Inr ps1"
          by (auto simp: Let_def split: sum.splits)
        from "2.prems" inb c False v old ne True ps1 have
          rec: "propagate_neighbors g cur cs w h ns ps1 ((nx, ny) # stack) = Inr (Some (ps', stack'))"
          by (simp add: Let_def)
        have "2 * total_size ps' + length stack' \<le> 2 * total_size ps1 + length ((nx, ny) # stack)"
          using "2.IH"(3)[OF inb c False v old refl ne True ps1 rec] .
        moreover have "total_size ps1 + length old = total_size ps + length ?new"
          using set2_total_size[OF old ps1] .
        ultimately show ?thesis using True by simp
      next
        case nl: False
        from "2.prems" inb c False v old ne nl have
          rec: "propagate_neighbors g cur cs w h ns ps stack = Inr (Some (ps', stack'))"
          by (simp add: Let_def)
        show ?thesis using "2.IH"(4)[OF inb c False v old refl ne nl rec] .
      qed
    qed
  qed
qed

termination propagate_loop
  by (relation "measure (\<lambda>(g, cs, w, h, ps, stack). 2 * total_size ps + length stack)")
     (auto simp del: propagate_neighbors.simps dest!: propagate_neighbors_measure)

lemma loop_body_iterations:
  "loop_body g w h st = Inr (Continue st') \<Longrightarrow> iterations st' = iterations st + 1"
  by (auto simp: loop_body_def split: sum.splits option.splits prod.splits)

termination wfc_loop
  by (relation "measure (\<lambda>(g, w, h, mx, st). nat (mx - iterations st))")
     (auto dest: loop_body_iterations)


section \<open>The adjacency table\<close>

lemma opposite_opposite: "opposite (opposite d) = d"
  by (cases d) simp_all

lemma can_connect_opposite: "can_connect a b d = can_connect b a (opposite d)"
  by (auto simp: can_connect_def opposite_opposite split: option.splits)

lemma add_directions_set:
  "add_directions t other ds e = Inr e' \<Longrightarrow>
   set (e' d) = set (e d) \<union> (if d \<in> set ds \<and> can_connect t other d = Inr True then {tile_id other} else {})"
proof (induction ds arbitrary: e)
  case Nil
  then show ?case by simp
next
  case (Cons a ds)
  from Cons.prems obtain b where b: "can_connect t other a = Inr b"
    and rec: "add_directions t other ds (if b then e(a := List.insert (tile_id other) (e a)) else e) = Inr e'"
    by (auto split: sum.splits)
  show ?case using Cons.IH[OF rec] b by (auto split: if_splits)
qed

lemma add_directions_all:
  assumes "add_directions t other [North, South, East, West] e = Inr e'"
  shows "set (e' d) = set (e d) \<union> (if can_connect t other d = Inr True then {tile_id other} else {})"
proof -
  have "d \<in> set [North, South, East, West]" by (cases d) simp_all
  with add_directions_set[OF assms, of d] show ?thesis by presburger
qed

lemma add_others_set:
  "add_others t os e = Inr e' \<Longrightarrow>
   set (e' d) = set (e d) \<union> {tile_id other | other. other \<in> set os \<and> can_connect t other d = Inr True}"
proof (induction os arbitrary: e)
  case Nil
  then show ?case by simp
next
  case (Cons a os)
  from Cons.prems obtain e1 where e1: "add_directions t a [North, South, East, West] e = Inr e1"
    and rec: "add_others t os e1 = Inr e'"
    by (auto simp del: add_directions.simps split: sum.splits)
  have "set (e' d) = set (e1 d) \<union> {tile_id other | other. other \<in> set os \<and> can_connect t other d = Inr True}"
    using Cons.IH[OF rec] .
  moreover have "set (e1 d) = set (e d) \<union> (if can_connect t a d = Inr True then {tile_id a} else {})"
    using add_directions_all[OF e1] .
  ultimately show ?case by auto
qed

lemma rules_loop_other:
  "rules_loop all_tiles ts rs = Inr rs' \<Longrightarrow> a \<notin> tile_id ` set ts \<Longrightarrow> rs' a = rs a"
  by (induction ts arbitrary: rs) (auto split: sum.splits)

lemma rules_loop_entry:
  "rules_loop all_tiles ts rs = Inr rs' \<Longrightarrow> distinct (map tile_id ts) \<Longrightarrow> t \<in> set ts \<Longrightarrow>
   \<exists>e. rs' (tile_id t) = Some e \<and> add_others t all_tiles (\<lambda>d. []) = Inr e"
proof (induction ts arbitrary: rs)
  case Nil
  then show ?case by simp
next
  case (Cons a ts)
  from Cons.prems(1) obtain e where e: "add_others a all_tiles (\<lambda>d. []) = Inr e"
    and rec: "rules_loop all_tiles ts (rs(tile_id a \<mapsto> e)) = Inr rs'"
    by (auto split: sum.splits)
  show ?case
  proof (cases "t = a")
    case True
    from Cons.prems(2) have "tile_id a \<notin> tile_id ` set ts" by simp
    from rules_loop_other[OF rec this] e True show ?thesis by simp
  next
    case False
    with Cons.prems have "t \<in> set ts" "distinct (map tile_id ts)" by auto
    from Cons.IH[OF rec this(2) this(1)] show ?thesis .
  qed
qed

lemma rules_entry:
  assumes "compute_adjacency_rules ts = Inr rs" "distinct (map tile_id ts)" "t \<in> set ts"
  shows "\<exists>e. rs (tile_id t) = Some e \<and>
           (\<forall>d. set (e d) = {tile_id other | other. other \<in> set ts \<and> can_connect t other d = Inr True})"
proof -
  from rules_loop_entry[OF assms(1)[unfolded compute_adjacency_rules_def] assms(2,3)]
  obtain e where e: "rs (tile_id t) = Some e" "add_others t ts (\<lambda>d. []) = Inr e" by blast
  from add_others_set[OF e(2)] e(1) show ?thesis by auto
qed

lemma rules_dom:
  "rules_loop all_tiles ts rs = Inr rs' \<Longrightarrow> dom rs' = dom rs \<union> tile_id ` set ts"
  by (induction ts arbitrary: rs) (auto split: sum.splits)

lemma tile_id_inj:
  "distinct (map tile_id ts) \<Longrightarrow> a \<in> set ts \<Longrightarrow> b \<in> set ts \<Longrightarrow> tile_id a = tile_id b \<Longrightarrow> a = b"
  by (meson distinct_map inj_onD)

lemma rules_member:
  assumes "compute_adjacency_rules ts = Inr rs" and "distinct (map tile_id ts)"
    and "A \<in> set ts" and "B \<in> set ts"
  shows "\<exists>eA. rs (tile_id A) = Some eA \<and>
           (\<forall>d. tile_id B \<in> set (eA d) \<longleftrightarrow> can_connect A B d = Inr True)"
proof -
  from rules_entry[OF assms(1,2,3)] obtain eA where eA: "rs (tile_id A) = Some eA"
    and S: "\<And>d. set (eA d) = {tile_id other | other. other \<in> set ts \<and> can_connect A other d = Inr True}"
    by blast
  have "tile_id B \<in> set (eA d) \<longleftrightarrow> can_connect A B d = Inr True" for d
  proof
    assume "tile_id B \<in> set (eA d)"
    then obtain other where o: "other \<in> set ts" "tile_id other = tile_id B"
      "can_connect A other d = Inr True"
      unfolding S by force
    from tile_id_inj[OF assms(2) o(1) assms(4) o(2)] o(3)
    show "can_connect A B d = Inr True" by simp
  next
    assume "can_connect A B d = Inr True"
    with assms(4) show "tile_id B \<in> set (eA d)" unfolding S by blast
  qed
  with eA show ?thesis by blast
qed


section \<open>The example catalogs, evaluated\<close>

lemma every_direction: "f(North := a, South := a, East := a, West := a) = (\<lambda>d. a)"
proof
  fix d show "(f(North := a, South := a, East := a, West := a)) d = a"
    by (cases d) simp_all
qed

lemma grass_water_collect: "collect Tile_init grass_water = Inr grass_water_objects"
  by (simp add: grass_water_def tile_A_def tile_B_def Tile_init_def grass_water_objects_def)

lemma rules_grass_water: "compute_adjacency_rules grass_water_objects = Inr grass_water_rules"
  by (simp add: compute_adjacency_rules_def can_connect_def grass_water_rules_def
      grass_water_objects_def every_direction)

lemma init_grass_water: "WFCGenerator_init grass_water_document = Inr grass_water_generator"
  by (simp add: WFCGenerator_init_def grass_water_document_def grass_water_collect
      rules_grass_water grass_water_generator_def)

lemma rules_shared_id: "compute_adjacency_rules shared_id_objects = Inr shared_id_rules"
  by (simp add: compute_adjacency_rules_def can_connect_def shared_id_rules_def
      shared_id_objects_def every_direction)

lemma shared_id_collect:
  "collect Tile_init (the (doc_tiles shared_id_document)) = Inr shared_id_objects"
  by (simp add: shared_id_document_def Tile_init_def shared_id_objects_def)

lemma init_shared_id: "WFCGenerator_init shared_id_document = Inr shared_id_generator"
  using shared_id_collect
  by (simp add: WFCGenerator_init_def shared_id_document_def rules_shared_id shared_id_generator_def)

lemma init_empty: "WFCGenerator_init empty_document = Inr empty_generator"
  by (simp add: WFCGenerator_init_def empty_document_def compute_adjacency_rules_def empty_generator_def)



section \<open>Catalog construction\<close>

lemma can_connect_fails:
  "can_connect t other d = Inl e \<longleftrightarrow>
     e = KeyError \<and> (edges t d = None \<or> edges other (opposite d) = None)"
  by (auto simp: can_connect_def split: option.splits)

lemma add_directions_fails:
  "add_directions t other ds e = Inl x \<longleftrightarrow>
     x = KeyError \<and> (\<exists>d \<in> set ds. edges t d = None \<or> edges other (opposite d) = None)"
proof (induction ds arbitrary: e)
  case Nil
  then show ?case by simp
next
  case (Cons a ds)
  show ?case
  proof (cases "can_connect t other a")
    case (Inl y)
    then show ?thesis using can_connect_fails[of t other a y] by auto
  next
    case (Inr b)
    have "\<not> (edges t a = None \<or> edges other (opposite a) = None)"
      using Inr can_connect_fails[of t other a KeyError] by auto
    then show ?thesis using Inr Cons.IH by auto
  qed
qed

lemma in_four_directions: "d \<in> set [North, South, East, West]"
  by (cases d) simp_all

lemma add_directions_four_fails:
  "add_directions t other [North, South, East, West] e = Inl x \<longleftrightarrow>
     x = KeyError \<and> broken_pair t other"
proof -
  have "(\<exists>d \<in> set [North, South, East, West]. edges t d = None \<or> edges other (opposite d) = None)
        \<longleftrightarrow> broken_pair t other"
    unfolding broken_pair_def using in_four_directions by blast
  with add_directions_fails[of t other "[North, South, East, West]" e x]
  show ?thesis by blast
qed

lemma add_others_fails:
  "add_others t os e = Inl x \<longleftrightarrow> x = KeyError \<and> broken_with os t"
proof (induction os arbitrary: e)
  case Nil
  then show ?case by (simp add: broken_with_def)
next
  case (Cons a os)
  have bw: "broken_with (a # os) t \<longleftrightarrow> broken_pair t a \<or> broken_with os t"
    by (simp add: broken_with_def)
  show ?case
  proof (cases "add_directions t a [North, South, East, West] e")
    case (Inl y)
    with add_directions_four_fails[of t a e y] have "y = KeyError" "broken_pair t a" by simp_all
    with Inl show ?thesis unfolding bw by (auto simp del: add_directions.simps)
  next
    case (Inr e1)
    with add_directions_four_fails[of t a e KeyError] have "\<not> broken_pair t a" by simp
    with Inr Cons.IH[of e1] show ?thesis unfolding bw by (simp del: add_directions.simps)
  qed
qed

lemma rules_loop_fails:
  "rules_loop all_tiles ts rs = Inl x \<longleftrightarrow>
     x = KeyError \<and> (\<exists>t \<in> set ts. broken_with all_tiles t)"
proof (induction ts arbitrary: rs)
  case Nil
  then show ?case by simp
next
  case (Cons a ts)
  show ?case
  proof (cases "add_others a all_tiles (\<lambda>d. [])")
    case (Inl y)
    with add_others_fails[of a all_tiles "\<lambda>d. []" y] have "y = KeyError" "broken_with all_tiles a"
      by simp_all
    with Inl show ?thesis by auto
  next
    case (Inr e1)
    with add_others_fails[of a all_tiles "\<lambda>d. []" KeyError] have "\<not> broken_with all_tiles a"
      by simp
    moreover have "rules_loop all_tiles (a # ts) rs = rules_loop all_tiles ts (rs(tile_id a \<mapsto> e1))"
      using Inr by simp
    moreover have "(\<exists>t \<in> set (a # ts). broken_with all_tiles t)
        \<longleftrightarrow> broken_with all_tiles a \<or> (\<exists>t \<in> set ts. broken_with all_tiles t)"
      by simp
    ultimately show ?thesis using Cons.IH[of "rs(tile_id a \<mapsto> e1)"] by presburger
  qed
qed

lemma compute_adjacency_rules_fails:
  "compute_adjacency_rules ts = Inl x \<longleftrightarrow>
     x = KeyError \<and> (\<exists>t \<in> set ts. \<exists>d. edges t d = None)"
proof -
  have "(\<exists>t \<in> set ts. broken_with ts t) \<longleftrightarrow> (\<exists>t \<in> set ts. \<exists>d. edges t d = None)"
    unfolding broken_with_def broken_pair_def by blast
  then show ?thesis unfolding compute_adjacency_rules_def rules_loop_fails by simp
qed

lemma Tile_init_fails: "Tile_init td = Inl x \<longleftrightarrow> x = KeyError \<and> missing_tile_key td"
  by (auto simp: Tile_init_def missing_tile_key_def split: option.splits)

lemma Tile_init_Inr:
  assumes "Tile_init td = Inr t"
  shows "d_id td = Some (tile_id t)" "d_edges td = Some (edges t)"
    "weight t = (case d_weight td of None \<Rightarrow> 1 | Some w \<Rightarrow> w)"
  using assms by (auto simp: Tile_init_def split: option.splits)

lemma collect_list_all2: "collect f xs = Inr ys \<Longrightarrow> list_all2 (\<lambda>x y. f x = Inr y) xs ys"
proof (induction xs arbitrary: ys)
  case Nil
  then show ?case by simp
next
  case (Cons a xs)
  from Cons.prems obtain b bs where "f a = Inr b" "collect f xs = Inr bs" "ys = b # bs"
    by (auto split: sum.splits)
  with Cons.IH[of bs] show ?case by simp
qed

lemma collect_Tile_init_fails:
  "collect Tile_init tds = Inl x \<longleftrightarrow> x = KeyError \<and> (\<exists>td \<in> set tds. missing_tile_key td)"
proof (induction tds)
  case Nil
  then show ?case by simp
next
  case (Cons a tds)
  show ?case
  proof (cases "Tile_init a")
    case (Inl y)
    with Tile_init_fails[of a y] have "y = KeyError" "missing_tile_key a" by simp_all
    with Inl show ?thesis by auto
  next
    case (Inr t)
    with Tile_init_fails[of a KeyError] have na: "\<not> missing_tile_key a" by simp
    show ?thesis
    proof (cases "collect Tile_init tds")
      case l: (Inl y)
      with Cons.IH[of ] Inr na show ?thesis by (cases "x = y") auto
    next
      case r: (Inr ts)
      with Cons.IH Inr na show ?thesis by auto
    qed
  qed
qed

lemma tiles_missing_label:
  assumes "list_all2 (\<lambda>td t. Tile_init td = Inr t) tds ts"
  shows "(\<exists>t \<in> set ts. \<exists>d. edges t d = None) \<longleftrightarrow> (\<exists>td \<in> set tds. missing_label td)"
  using assms
proof (induction rule: list_all2_induct)
  case Nil
  then show ?case by simp
next
  case (Cons td tds t ts)
  from Tile_init_Inr(2)[OF Cons.hyps(1)]
  have "(\<exists>d. edges t d = None) \<longleftrightarrow> missing_label td" by (simp add: missing_label_def)
  with Cons.IH show ?case by simp
qed

lemma init_fails: "WFCGenerator_init doc = Inl x \<longleftrightarrow> x = KeyError \<and> missing_key doc"
proof (cases "doc_tileset doc")
  case None
  then show ?thesis by (auto simp: WFCGenerator_init_def missing_key_def)
next
  case (Some info)
  show ?thesis
  proof (cases "doc_tiles doc")
    case None
    with Some show ?thesis by (auto simp: WFCGenerator_init_def missing_key_def)
  next
    case tds: (Some tds)
    have mk: "missing_key doc \<longleftrightarrow> (\<exists>td \<in> set tds. missing_tile_key td) \<or> (\<exists>td \<in> set tds. missing_label td)"
      using Some tds by (auto simp: missing_key_def)
    show ?thesis
    proof (cases "collect Tile_init tds")
      case (Inl y)
      with collect_Tile_init_fails[of tds y] have "y = KeyError" "\<exists>td \<in> set tds. missing_tile_key td"
        by simp_all
      moreover from Inl Some tds have "WFCGenerator_init doc = Inl y"
        by (simp add: WFCGenerator_init_def)
      ultimately show ?thesis unfolding mk by auto
    next
      case (Inr ts)
      with collect_Tile_init_fails[of tds KeyError] have no: "\<not> (\<exists>td \<in> set tds. missing_tile_key td)"
        by simp
      from Inr Some tds have "WFCGenerator_init doc = Inl x \<longleftrightarrow> compute_adjacency_rules ts = Inl x"
        by (auto simp: WFCGenerator_init_def split: sum.splits)
      also have "\<dots> \<longleftrightarrow> x = KeyError \<and> (\<exists>td \<in> set tds. missing_label td)"
        unfolding compute_adjacency_rules_fails tiles_missing_label[OF collect_list_all2[OF Inr]] ..
      finally show ?thesis unfolding mk using no by simp
    qed
  qed
qed

lemma init_fields:
  assumes "WFCGenerator_init doc = Inr g"
  shows "\<exists>tds. doc_tiles doc = Some tds \<and> collect Tile_init tds = Inr (tiles g)"
    and "tile_by_id g = make_tile_by_id (tiles g)"
    and "compute_adjacency_rules (tiles g) = Inr (adjacency_rules g)"
  using assms by (auto simp: WFCGenerator_init_def split: sum.splits option.splits)

lemma init_tiles:
  assumes "WFCGenerator_init doc = Inr g" and "doc_tiles doc = Some tds"
  shows "map (\<lambda>t. Some (tile_id t)) (tiles g) = map d_id tds"
    and "map weight (tiles g) = map (\<lambda>td. case d_weight td of None \<Rightarrow> 1 | Some w \<Rightarrow> w) tds"
proof -
  from init_fields(1)[OF assms(1)] assms(2) have "collect Tile_init tds = Inr (tiles g)" by simp
  from collect_list_all2[OF this]
  have l: "list_all2 (\<lambda>td t. Tile_init td = Inr t) tds (tiles g)" .
  then show "map (\<lambda>t. Some (tile_id t)) (tiles g) = map d_id tds"
    by (induction rule: list_all2_induct) (simp_all add: Tile_init_Inr(1))
  from l show "map weight (tiles g) = map (\<lambda>td. case d_weight td of None \<Rightarrow> 1 | Some w \<Rightarrow> w) tds"
    by (induction rule: list_all2_induct) (simp_all add: Tile_init_Inr(3))
qed

text \<open>
  C7, as the code has it. The constructor validates neither identifiers nor weights. On
  a well-typed document it fails exactly when a key it reads is absent: "tileset" or
  "tiles" of the document, "id", "name" or "edges" of a tile, or one of the four direction
  labels of a tile's edges. The failure is an uncaught KeyError, raised before the
  generator object exists. Otherwise it succeeds and keeps every tile with the identifier
  and the weight it was given (1 when the weight is absent), so duplicate identifiers and
  weights that are not positive are accepted.
\<close>

theorem catalog_construction:
  "(isl (WFCGenerator_init doc) \<longleftrightarrow> missing_key doc)
   \<and> (isl (WFCGenerator_init doc) \<longrightarrow> WFCGenerator_init doc = Inl KeyError)
   \<and> (\<forall>g tds. WFCGenerator_init doc = Inr g \<and> doc_tiles doc = Some tds \<longrightarrow>
         map (\<lambda>t. Some (tile_id t)) (tiles g) = map d_id tds
         \<and> map weight (tiles g) = map (\<lambda>td. case d_weight td of None \<Rightarrow> 1 | Some w \<Rightarrow> w) tds)"
proof (cases "WFCGenerator_init doc")
  case (Inl x)
  with init_fails[of doc x] show ?thesis by simp
next
  case (Inr g)
  have "\<not> missing_key doc"
    using init_fails[of doc KeyError] Inr by simp
  with Inr init_tiles[OF Inr] show ?thesis by simp
qed

text \<open>
  C7 at three documents: a tile without a north label and a document without the
  "tileset" key make the constructor raise KeyError, and the scenario catalog is
  accepted with its identifiers.
\<close>

theorem catalog_construction_witness:
  "WFCGenerator_init missing_north = Inl KeyError
   \<and> WFCGenerator_init (grass_water_document\<lparr>doc_tileset := None\<rparr>) = Inl KeyError
   \<and> \<not> isl (WFCGenerator_init grass_water_document)
   \<and> map (\<lambda>t. Some (tile_id t)) (tiles grass_water_generator) = map d_id grass_water"
proof -
  have "missing_key missing_north"
    by (simp add: missing_north_def missing_key_def missing_label_def tile_A_def)
  with catalog_construction[of missing_north]
  have 1: "WFCGenerator_init missing_north = Inl KeyError" by blast
  have "missing_key (grass_water_document\<lparr>doc_tileset := None\<rparr>)"
    by (simp add: missing_key_def)
  with catalog_construction[of "grass_water_document\<lparr>doc_tileset := None\<rparr>"]
  have 2: "WFCGenerator_init (grass_water_document\<lparr>doc_tileset := None\<rparr>) = Inl KeyError"
    by blast
  have "\<not> missing_key grass_water_document"
    by (simp add: missing_key_def missing_tile_key_def missing_label_def grass_water_document_def
        grass_water_def tile_A_def tile_B_def)
  with catalog_construction[of grass_water_document]
  have 3: "\<not> isl (WFCGenerator_init grass_water_document)" by blast
  have "doc_tiles grass_water_document = Some grass_water"
    by (simp add: grass_water_document_def)
  with catalog_construction[of grass_water_document] init_grass_water
  have 4: "map (\<lambda>t. Some (tile_id t)) (tiles grass_water_generator) = map d_id grass_water"
    by blast
  from 1 2 3 4 show ?thesis by blast
qed

text \<open>
  The claim C7 as the specification states it fails: a catalog whose two tiles share the
  identifier 0, one of them with weight -1, is accepted.
\<close>

theorem duplicate_ids_accepted:
  "\<not> distinct (map d_id duplicate_catalog)
   \<and> d_weight (duplicate_catalog ! 1) = Some (- 1)
   \<and> doc_tiles duplicate_document = Some duplicate_catalog
   \<and> \<not> isl (WFCGenerator_init duplicate_document)"
proof -
  have "\<not> missing_key duplicate_document"
    by (simp add: missing_key_def missing_tile_key_def missing_label_def duplicate_document_def
        duplicate_catalog_def tile_A_def)
  then have "WFCGenerator_init duplicate_document \<noteq> Inl x" for x
    unfolding init_fails by blast
  then have "\<not> isl (WFCGenerator_init duplicate_document)"
    by (cases "WFCGenerator_init duplicate_document") auto
  then show ?thesis by (simp add: duplicate_document_def duplicate_catalog_def tile_A_def)
qed

section \<open>Selection of the cell of minimum entropy\<close>

lemma random_value_range: "0 \<le> random_value r \<and> random_value r < 1"
  by (simp add: random_value_def)

lemma noise_range: "0 \<le> random_value r * (1 / 10) \<and> random_value r * (1 / 10) < 1"
  using random_value_range[of r] by simp

lemma scan_cells_step:
  assumes "scan_cells ps cs ((y, x) # rest) me mc r = Inr (Some c, r')"
  shows "(get2 cs y x = Inr True \<and> scan_cells ps cs rest me mc r = Inr (Some c, r'))
       \<or> (\<exists>p. get2 cs y x = Inr False \<and> get2 ps y x = Inr p \<and> p \<noteq> []
            \<and> (case me of None \<Rightarrow> True | Some m \<Rightarrow> of_nat (length p) + random_value r * (1 / 10) < m)
            \<and> scan_cells ps cs rest (Some (of_nat (length p) + random_value r * (1 / 10)))
                 (Some (y, x)) (random_rest r) = Inr (Some c, r'))
       \<or> (\<exists>p m. get2 cs y x = Inr False \<and> get2 ps y x = Inr p \<and> p \<noteq> []
            \<and> me = Some m \<and> m \<le> of_nat (length p) + random_value r * (1 / 10)
            \<and> scan_cells ps cs rest me mc (random_rest r) = Inr (Some c, r'))"
  using assms by (auto simp: Let_def split: sum.splits if_splits option.splits)

lemma scan_good_collapsed:
  assumes "scan_good ps cs seen me mc" and "get2 cs y x = Inr True"
  shows "scan_good ps cs (insert (y, x) seen) me mc"
  using assms by (auto simp: scan_good_def unresolved_at_def split: option.splits)

lemma scan_good_take:
  assumes g: "scan_good ps cs seen me mc"
    and u: "get2 cs y x = Inr False" and p: "get2 ps y x = Inr p"
    and less: "case me of None \<Rightarrow> True | Some m \<Rightarrow> of_nat (length p) + random_value r * (1 / 10) < m"
  shows "scan_good ps cs (insert (y, x) seen)
           (Some (of_nat (length p) + random_value r * (1 / 10))) (Some (y, x))"
proof -
  let ?e = "of_nat (length p) + random_value r * (1 / 10) :: rat"
  have ent: "entropy_at ps (y, x) = length p" using p by (simp add: entropy_at_def)
  have un: "unresolved_at cs (y, x)" using u by (simp add: unresolved_at_def)
  have lo: "of_nat (entropy_at ps (y, x)) \<le> ?e" using noise_range[of r] ent by simp
  have hi: "?e < of_nat (entropy_at ps (y, x)) + 1" using noise_range[of r] ent by simp
  have old: "?e < of_nat (entropy_at ps c') + 1" if "c' \<in> seen" "unresolved_at cs c'" for c'
  proof (cases me)
    case None
    with g that show ?thesis by (simp add: scan_good_def)
  next
    case (Some m)
    with g that have "m < of_nat (entropy_at ps c') + 1" by (auto simp: scan_good_def)
    moreover from less Some have "?e < m" by simp
    ultimately show ?thesis by simp
  qed
  show ?thesis unfolding scan_good_def using un lo hi old by auto
qed

lemma scan_good_keep:
  assumes g: "scan_good ps cs seen (Some m) mc"
    and u: "get2 cs y x = Inr False" and p: "get2 ps y x = Inr p"
    and ge: "m \<le> of_nat (length p) + random_value r * (1 / 10)"
  shows "scan_good ps cs (insert (y, x) seen) (Some m) mc"
proof -
  have ent: "entropy_at ps (y, x) = length p" using p by (simp add: entropy_at_def)
  have "m < of_nat (entropy_at ps (y, x)) + 1" using noise_range[of r] ent ge by simp
  with g show ?thesis by (auto simp: scan_good_def)
qed

lemma scan_cells_good:
  "scan_cells ps cs cells me mc r = Inr (Some c, r') \<Longrightarrow> scan_good ps cs seen me mc
   \<Longrightarrow> \<exists>e. scan_good ps cs (seen \<union> set cells) (Some e) (Some c)"
proof (induction cells arbitrary: me mc r seen)
  case Nil
  then show ?case by (cases me) (auto simp: scan_good_def)
next
  case (Cons a cells)
  obtain y x where a: "a = (y, x)" by (cases a)
  have un: "insert (y, x) seen \<union> set cells = seen \<union> set (a # cells)" using a by auto
  from scan_cells_step[OF Cons.prems(1)[unfolded a]]
  consider
    (collapsed) "get2 cs y x = Inr True" "scan_cells ps cs cells me mc r = Inr (Some c, r')"
  | (take) p where "get2 cs y x = Inr False" "get2 ps y x = Inr p"
      "case me of None \<Rightarrow> True | Some m \<Rightarrow> of_nat (length p) + random_value r * (1 / 10) < m"
      "scan_cells ps cs cells (Some (of_nat (length p) + random_value r * (1 / 10)))
         (Some (y, x)) (random_rest r) = Inr (Some c, r')"
  | (keep) p m where "get2 cs y x = Inr False" "get2 ps y x = Inr p" "me = Some m"
      "m \<le> of_nat (length p) + random_value r * (1 / 10)"
      "scan_cells ps cs cells me mc (random_rest r) = Inr (Some c, r')"
    by blast
  then show ?case
  proof cases
    case collapsed
    from Cons.IH[OF collapsed(2) scan_good_collapsed[OF Cons.prems(2) collapsed(1)]]
    show ?thesis unfolding un .
  next
    case take
    from Cons.IH[OF take(4) scan_good_take[OF Cons.prems(2) take(1,2,3)]]
    show ?thesis unfolding un .
  next
    case keep
    from Cons.IH[OF keep(5)[unfolded keep(3)] scan_good_keep[OF Cons.prems(2)[unfolded keep(3)] keep(1,2,4)]]
    show ?thesis unfolding un .
  qed
qed

text \<open>
  C9. The tie-break noise \<open>random.random() * 0.1\<close> is at least 0 and less than 1, and the
  cell that \<open>_find_min_entropy_cell\<close> returns is an unresolved cell of the scan whose
  number of possibilities is the least among all unresolved cells.
\<close>

theorem min_entropy_selected:
  assumes "find_min_entropy_cell ps cs r = Inr (Some c, r')"
  shows "0 \<le> random_value r0 * (1 / 10) \<and> random_value r0 * (1 / 10) < 1
       \<and> c \<in> set (scan_order ps) \<and> unresolved_at cs c
       \<and> (\<forall>c' \<in> set (scan_order ps). unresolved_at cs c' \<longrightarrow> entropy_at ps c \<le> entropy_at ps c')"
proof -
  have "scan_good ps cs {} None None" by (simp add: scan_good_def)
  from scan_cells_good[OF assms[unfolded find_min_entropy_cell_def] this]
  obtain e where g: "scan_good ps cs (set (scan_order ps)) (Some e) (Some c)" by auto
  then have c: "c \<in> set (scan_order ps)" "unresolved_at cs c" "of_nat (entropy_at ps c) \<le> e"
    and all: "\<And>c'. c' \<in> set (scan_order ps) \<Longrightarrow> unresolved_at cs c' \<Longrightarrow> e < of_nat (entropy_at ps c') + 1"
    by (auto simp: scan_good_def)
  have "entropy_at ps c \<le> entropy_at ps c'" if "c' \<in> set (scan_order ps)" "unresolved_at cs c'" for c'
  proof -
    from all[OF that] c(3) have "(of_nat (entropy_at ps c) :: rat) < of_nat (entropy_at ps c') + 1"
      by simp
    then have "(of_nat (entropy_at ps c) :: rat) < of_nat (entropy_at ps c' + 1)" by simp
    then have "entropy_at ps c < entropy_at ps c' + 1" by (simp only: of_nat_less_iff)
    then show ?thesis by simp
  qed
  with c(1,2) noise_range[of r0] show ?thesis by blast
qed

lemma constant_stream_rest: "random_rest (\<lambda>n. k) = (\<lambda>n. k)"
  by (simp add: random_rest_def)

lemma constant_stream_zero: "random_value (\<lambda>n. 0) = 0"
  by (simp add: random_value_def)

lemma find_min_example:
  "find_min_entropy_cell [[[0, 1], [0]]] [[False, False]] (\<lambda>n. 0) = Inr (Some (0, 1), \<lambda>n. 0)"
  by (simp add: find_min_entropy_cell_def scan_order_def get2_def py_index_def
      constant_stream_rest constant_stream_zero)

text \<open>
  C9 on a row of two unresolved cells with two and one possibilities: the second cell is
  selected.
\<close>

theorem min_entropy_selected_witness:
  "find_min_entropy_cell [[[0, 1], [0]]] [[False, False]] (\<lambda>n. 0) = Inr (Some (0, 1), \<lambda>n. 0)
   \<and> unresolved_at [[False, False]] (0, 1)
   \<and> entropy_at [[[0, 1], [0]]] (0, 1) \<le> entropy_at [[[0, 1], [0]]] (0, 0)
   \<and> random_value (\<lambda>n. 5) * (1 / 10) < 1"
proof -
  have c: "(0, 0) \<in> set (scan_order [[[0, 1], [0 :: int]]])"
    by (simp add: scan_order_def)
  have u: "unresolved_at [[False, False]] (0, 0)"
    by (simp add: unresolved_at_def get2_def py_index_def)
  from min_entropy_selected[OF find_min_example, of "\<lambda>n. 5"] c u find_min_example
  show ?thesis by blast
qed

section \<open>Runs of generate on the scenario catalog\<close>

lemmas run_defs =
  generate_def initial_state_def all_tile_ids_def grass_water_generator_def grass_water_objects_def
  is_fully_collapsed_def loop_body_def find_min_entropy_cell_def scan_order_def
  get2_def set2_def py_index_def py_store_def collapse_cell_def make_tile_by_id_def
  random_choices_def accumulate_def propagate_def grass_water_rules_def final_grid_def
  py_range_def Let_def numeral_2_eq_2 bisect_right.simps

lemma generate_seeded: "generate sd g w h (Some s) r = generate sd g w h None (sd s)"
  by (simp add: generate_def)

lemma run_1x1_any:
  "generate sd grass_water_generator 1 1 None r = Inr [[0]]
   \<or> generate sd grass_water_generator 1 1 None r = Inr [[1]]"
  by (simp add: run_defs)

lemma run_2x1_any:
  "generate sd grass_water_generator 2 1 None r = Inr [[0, 0]]
   \<or> generate sd grass_water_generator 2 1 None r = Inr [[1, 1]]"
  by (simp add: run_defs)

lemma run_minus: "generate sd g (- 1) (- 1) None r = Inr []"
  by (simp add: run_defs)

lemma run_2x1_zero:
  "generate sd grass_water_generator 2 1 None (\<lambda>n. 0) = Inr [[0, 0]]"
  by (simp add: run_defs constant_stream_rest constant_stream_zero)

lemma run_2x1_high:
  "generate sd grass_water_generator 2 1 None (\<lambda>n. 9007199254740991) = Inr [[1, 1]]"
  by (simp add: run_defs constant_stream_rest random_value_def)

text \<open>
  C3 as the specification states it fails: on the 2 by 1 grid the run over the stream of
  zeros returns the grid [[A, A]].
\<close>

theorem grass_water_2x1_succeeds:
  "WFCGenerator_init grass_water_document = Inr grass_water_generator
   \<and> generate (\<lambda>s n. 0) grass_water_generator 2 1 None (\<lambda>n. 0) = Inr [[0, 0]]"
  using init_grass_water run_2x1_zero by simp

text \<open>
  C3, as the code has it. Each of the two tiles is compatible with itself, so on the 2 by 1
  grid every run succeeds and returns [[A, A]] or [[B, B]], whatever the seed and the
  random stream; and whenever width * height = 1 the run succeeds.
\<close>

theorem grass_water_runs:
  "WFCGenerator_init grass_water_document = Inr grass_water_generator
   \<and> (generate sd grass_water_generator 2 1 seed r = Inr [[0, 0]]
      \<or> generate sd grass_water_generator 2 1 seed r = Inr [[1, 1]])
   \<and> (w * h = 1 \<longrightarrow> (\<exists>grid. generate sd grass_water_generator w h seed r = Inr grid))"
proof -
  define r0 where "r0 = (case seed of None \<Rightarrow> r | Some s \<Rightarrow> sd s)"
  have eq: "generate sd grass_water_generator w' h' seed r = generate sd grass_water_generator w' h' None r0"
    for w' h'
    by (cases seed) (simp_all add: r0_def generate_seeded)
  have two: "generate sd grass_water_generator 2 1 seed r = Inr [[0, 0]]
      \<or> generate sd grass_water_generator 2 1 seed r = Inr [[1, 1]]"
    unfolding eq by (rule run_2x1_any)
  have one: "\<exists>grid. generate sd grass_water_generator w h seed r = Inr grid" if "w * h = 1"
  proof -
    from that have "w = 1 \<and> h = 1 \<or> w = - 1 \<and> h = - 1" by (simp add: zmult_eq_1_iff)
    then show ?thesis
    proof
      assume "w = 1 \<and> h = 1"
      with run_1x1_any[of sd r0] show ?thesis unfolding eq by auto
    next
      assume "w = - 1 \<and> h = - 1"
      with run_minus[of sd grass_water_generator r0] show ?thesis unfolding eq by auto
    qed
  qed
  from init_grass_water two one show ?thesis by blast
qed

theorem grass_water_runs_witness:
  "(generate (\<lambda>s n. 0) grass_water_generator 2 1 (Some 3) (\<lambda>n. 5) = Inr [[0, 0]]
    \<or> generate (\<lambda>s n. 0) grass_water_generator 2 1 (Some 3) (\<lambda>n. 5) = Inr [[1, 1]])
   \<and> (\<exists>grid. generate (\<lambda>s n. 0) grass_water_generator 1 1 (Some 3) (\<lambda>n. 5) = Inr grid)"
proof -
  have "(1::int) * 1 = 1" by simp
  with grass_water_runs[of "\<lambda>s n. 0" "Some 3" "\<lambda>n. 5" 1 1] show ?thesis by blast
qed

text \<open>
  With an explicit seed the run starts from the state that the seed installs, whatever
  the state of the generator before the call.
\<close>

lemma seed_replaces_state:
  "generate sd g w h (Some s) r1 = generate sd g w h (Some s) r2"
  by (simp add: generate_seeded)

text \<open>Without a seed the outcome follows the state the generator was left in.\<close>

lemma unseeded_run_depends_on_state:
  "generate sd grass_water_generator 2 1 None (\<lambda>n. 0)
     \<noteq> generate sd grass_water_generator 2 1 None (\<lambda>n. 9007199254740991)"
  by (simp add: run_2x1_zero run_2x1_high)

section \<open>The empty catalog\<close>

text \<open>
  C6 at the empty catalog on a 1 by 1 grid: the only cell has no possibility,
  \<open>_find_min_entropy_cell\<close> returns None, the loop takes the \<open>break\<close> meant for a fully
  collapsed grid, and the conversion to the final grid raises IndexError. No
  Contradiction is reported.
\<close>

theorem empty_catalog_index_error:
  "WFCGenerator_init empty_document = Inr empty_generator
   \<and> find_min_entropy_cell (possibilities (initial_state empty_generator 1 1 r))
        (collapsed (initial_state empty_generator 1 1 r)) r = Inr (None, r)
   \<and> loop_body empty_generator 1 1 (initial_state empty_generator 1 1 r)
        = Inr (Break ((initial_state empty_generator 1 1 r)\<lparr>iterations := 1\<rparr>))
   \<and> generate sd empty_generator 1 1 None r = Inl IndexError"
  by (simp add: init_empty run_defs empty_generator_def)

section \<open>The iteration cap\<close>

lemma loop_body_break_iterations:
  "loop_body g w h st = Inr (Break st') \<Longrightarrow> iterations st' = iterations st + 1"
  by (auto simp: loop_body_def split: sum.splits option.splits prod.splits)

lemma wfc_loop_iterations:
  "wfc_loop g w h mx st = Inr st' \<Longrightarrow>
   iterations st \<le> iterations st' \<and> iterations st' \<le> max mx (iterations st)"
proof (induction g w h mx st rule: wfc_loop.induct)
  case (1 g w h mx st)
  show ?case
  proof (cases "\<not> is_fully_collapsed (collapsed st) \<and> iterations st < mx")
    case False
    with "1.prems" show ?thesis by auto
  next
    case True
    show ?thesis
    proof (cases "loop_body g w h st")
      case (Inl e)
      with True "1.prems" show ?thesis by simp
    next
      case (Inr s)
      show ?thesis
      proof (cases s)
        case (Break st1)
        with True Inr "1.prems" have "st' = st1" by simp
        with loop_body_break_iterations[OF Inr[unfolded Break]] True show ?thesis by simp
      next
        case (Continue st1)
        with True Inr "1.prems" have rec: "wfc_loop g w h mx st1 = Inr st'" by simp
        from "1.IH"[OF True Inr Continue rec] loop_body_iterations[OF Inr[unfolded Continue]] True
        show ?thesis by simp
      qed
    qed
  qed
qed

text \<open>
  C8. The main loop of \<open>generate\<close> is entered only while fewer than width * height * 100
  passes have been made, so it makes at most that many; and when the loop ends with the
  counter at the cap or above, \<open>generate\<close> fails with the max-iterations outcome and
  returns no grid.
\<close>

theorem iteration_cap:
  assumes "wfc_loop g w h (w * h * 100) (initial_state g w h r) = Inr st"
  shows "0 \<le> iterations st \<and> iterations st \<le> max 0 (w * h * 100)
       \<and> (w * h * 100 \<le> iterations st \<longrightarrow> generate sd g w h None r = Inl MaxIterations)
       \<and> (iterations st < w * h * 100 \<longrightarrow>
            generate sd g w h None r = final_grid (possibilities st) w h)"
proof -
  have "iterations (initial_state g w h r) = 0" by (simp add: initial_state_def)
  with wfc_loop_iterations[OF assms]
  have "0 \<le> iterations st" "iterations st \<le> max 0 (w * h * 100)" by (simp_all add: max.commute)
  moreover have "w * h * 100 \<le> iterations st \<Longrightarrow> generate sd g w h None r = Inl MaxIterations"
    using assms by (simp add: generate_def)
  moreover have "iterations st < w * h * 100 \<Longrightarrow>
      generate sd g w h None r = final_grid (possibilities st) w h"
    using assms by (simp add: generate_def)
  ultimately show ?thesis by blast
qed

lemma loop_zero_width:
  "wfc_loop g 0 h (0 * h * 100) (initial_state g 0 h r) = Inr (initial_state g 0 h r)"
  by (simp add: initial_state_def)

lemma loop_2x1_zero:
  "wfc_loop grass_water_generator 2 1 (2 * 1 * 100) (initial_state grass_water_generator 2 1 (\<lambda>n. 0))
     = Inr \<lparr> possibilities = [[[0], [0]]], collapsed = [[True, True]], iterations = 2,
             random_state = (\<lambda>n. 0) \<rparr>"
  by (simp add: run_defs constant_stream_rest constant_stream_zero)

text \<open>
  C8 on a grid of width 0, where the cap is 0 and is reached at once, and on the 2 by 1
  grid of the scenario catalog, which takes 2 of the 200 passes allowed.
\<close>

theorem iteration_cap_witness:
  "generate (\<lambda>s n. 0) grass_water_generator 0 1 None (\<lambda>n. 0) = Inl MaxIterations
   \<and> generate (\<lambda>s n. 0) grass_water_generator 2 1 None (\<lambda>n. 0)
       = final_grid [[[0], [0]]] 2 1"
proof -
  from iteration_cap[OF loop_zero_width, of grass_water_generator 1 "\<lambda>n. 0" "\<lambda>s n. 0"]
  have 1: "generate (\<lambda>s n. 0) grass_water_generator 0 1 None (\<lambda>n. 0) = Inl MaxIterations"
    by (simp add: initial_state_def)
  from iteration_cap[OF loop_2x1_zero, of "\<lambda>s n. 0"]
  have 2: "generate (\<lambda>s n. 0) grass_water_generator 2 1 None (\<lambda>n. 0)
       = final_grid [[[0], [0]]] 2 1"
    by simp
  from 1 2 show ?thesis by (rule conjI)
qed

section \<open>Rectangular grids\<close>

lemma shaped_replicate: "shaped w h (replicate (nat h) (replicate (nat w) v))"
  by (simp add: shaped_def)

lemma cell_at_replicate: "inb w h y x \<Longrightarrow> cell_at (replicate (nat h) (replicate (nat w) v)) y x = v"
  by (simp add: cell_at_def inb_def)

lemma py_index_inb: "0 \<le> i \<Longrightarrow> i < int (length xs) \<Longrightarrow> py_index xs i = Inr (xs ! nat i)"
  by (simp add: py_index_def)

lemma py_store_inb: "0 \<le> i \<Longrightarrow> i < int (length xs) \<Longrightarrow> py_store xs i v = Inr (xs[nat i := v])"
  by (simp add: py_store_def)

lemma shaped_row:
  assumes "shaped w h g" "inb w h y x"
  shows "nat y < length g" "length (g ! nat y) = nat w" "nat x < length (g ! nat y)"
    "0 \<le> y" "y < int (length g)" "0 \<le> x" "x < int (length (g ! nat y))"
proof -
  from assms show y: "nat y < length g" by (auto simp: shaped_def inb_def)
  with assms show l: "length (g ! nat y) = nat w" by (auto simp: shaped_def)
  from assms l show "nat x < length (g ! nat y)" by (auto simp: inb_def)
  from assms show "0 \<le> y" "0 \<le> x" by (auto simp: inb_def)
  from assms show "y < int (length g)" by (auto simp: shaped_def inb_def)
  from assms l show "x < int (length (g ! nat y))" by (auto simp: inb_def)
qed

lemma get2_inb:
  assumes "shaped w h g" "inb w h y x"
  shows "get2 g y x = Inr (cell_at g y x)"
  using shaped_row[OF assms] by (simp add: get2_def cell_at_def py_index_inb)

lemma set2_inb:
  assumes "shaped w h g" "inb w h y x"
  shows "set2 g y x v = Inr (g[nat y := (g ! nat y)[nat x := v]])"
  using shaped_row[OF assms] by (simp add: set2_def py_index_inb py_store_inb)

lemma set2_shaped:
  assumes "shaped w h g" "inb w h y x" "set2 g y x v = Inr g'"
  shows "shaped w h g'"
proof -
  from assms(3) set2_inb[OF assms(1,2), of v] have g': "g' = g[nat y := (g ! nat y)[nat x := v]]"
    by simp
  have "length rw = nat w" if "rw \<in> set g'" for rw
  proof -
    from that g' have "rw \<in> insert ((g ! nat y)[nat x := v]) (set g)"
      using set_update_subset_insert by fastforce
    with assms(1) shaped_row(2)[OF assms(1,2)] show ?thesis by (auto simp: shaped_def)
  qed
  with assms(1) g' show ?thesis by (simp add: shaped_def)
qed

lemma set2_cell_at:
  assumes "shaped w h g" "inb w h y x" "set2 g y x v = Inr g'" "inb w h y' x'"
  shows "cell_at g' y' x' = (if y' = y \<and> x' = x then v else cell_at g y' x')"
proof -
  from assms(3) set2_inb[OF assms(1,2), of v] have g': "g' = g[nat y := (g ! nat y)[nat x := v]]"
    by simp
  note r = shaped_row[OF assms(1,2)] and r' = shaped_row[OF assms(1,4)]
  have ny: "nat y' = nat y \<longleftrightarrow> y' = y" using r(4) r'(4) by auto
  have nx: "nat x' = nat x \<longleftrightarrow> x' = x" using r(6) r'(6) by auto
  show ?thesis
  proof (cases "y' = y")
    case True
    with r r' nx show ?thesis unfolding g' cell_at_def by (auto simp: nth_list_update)
  next
    case False
    with r r' ny show ?thesis unfolding g' cell_at_def by (auto simp: nth_list_update)
  qed
qed

lemma scan_order_shaped:
  assumes "shaped w h g"
  shows "set (scan_order g) = {(y, x). inb w h y x}"
proof (cases g)
  case Nil
  with assms have "h \<le> 0" by (simp add: shaped_def)
  with Nil show ?thesis by (auto simp: scan_order_def inb_def)
next
  case (Cons row0 rest)
  with assms have l: "length row0 = nat w" "length g = nat h" by (auto simp: shaped_def)
  have "set (scan_order g) = (\<lambda>(y, x). (int y, int x)) ` ({0..<nat h} \<times> {0..<nat w})"
    using Cons l by (auto simp: scan_order_def image_iff)
  also have "\<dots> = {(y, x). inb w h y x}"
  proof (intro set_eqI iffI)
    fix c assume "c \<in> (\<lambda>(y, x). (int y, int x)) ` ({0..<nat h} \<times> {0..<nat w})"
    then show "c \<in> {(y, x). inb w h y x}" by (auto simp: inb_def)
  next
    fix c assume c: "c \<in> {(y, x). inb w h y x}"
    obtain y x where yx: "c = (y, x)" by (cases c)
    with c have "inb w h y x" by simp
    then have "(nat y, nat x) \<in> {0..<nat h} \<times> {0..<nat w}" "c = (int (nat y), int (nat x))"
      using yx by (auto simp: inb_def)
    then show "c \<in> (\<lambda>(y, x). (int y, int x)) ` ({0..<nat h} \<times> {0..<nat w})"
      by (metis (mono_tags, lifting) case_prod_conv image_eqI)
  qed
  finally show ?thesis .
qed

section \<open>Propagation only shrinks unresolved cells\<close>

lemma shrinks_refl: "shaped w h ps \<Longrightarrow> shrinks w h cs ps ps"
  by (simp add: shrinks_def)

lemma shrinks_cell:
  assumes "shrinks w h cs ps ps'" "inb w h y x"
  shows "set (cell_at ps' y x) \<subseteq> set (cell_at ps y x)"
    and "cell_at cs y x \<Longrightarrow> cell_at ps' y x = cell_at ps y x"
    and "cell_at ps y x \<noteq> [] \<Longrightarrow> cell_at ps' y x \<noteq> []"
  using assms unfolding shrinks_def by blast+

lemma shrinks_shaped: "shrinks w h cs ps ps' \<Longrightarrow> shaped w h ps'"
  by (simp add: shrinks_def)

lemma shrinks_trans:
  assumes a: "shrinks w h cs ps ps1" and b: "shrinks w h cs ps1 ps2"
  shows "shrinks w h cs ps ps2"
proof -
  have "set (cell_at ps2 y x) \<subseteq> set (cell_at ps y x)
         \<and> (cell_at cs y x \<longrightarrow> cell_at ps2 y x = cell_at ps y x)
         \<and> (cell_at ps y x \<noteq> [] \<longrightarrow> cell_at ps2 y x \<noteq> [])" if i: "inb w h y x" for y x
    using shrinks_cell[OF a i] shrinks_cell[OF b i] by auto
  with shrinks_shaped[OF b] show ?thesis unfolding shrinks_def by blast
qed

lemma shrinks_store:
  assumes sh: "shaped w h ps" "shaped w h cs" and n: "inb w h ny nx" "\<not> cell_at cs ny nx"
    and new: "set new \<subseteq> set (cell_at ps ny nx)" "new \<noteq> []"
    and st: "set2 ps ny nx new = Inr ps1"
  shows "shrinks w h cs ps ps1"
proof -
  have "shaped w h ps1" using set2_shaped[OF sh(1) n(1) st] .
  moreover have "set (cell_at ps1 y x) \<subseteq> set (cell_at ps y x)
         \<and> (cell_at cs y x \<longrightarrow> cell_at ps1 y x = cell_at ps y x)
         \<and> (cell_at ps y x \<noteq> [] \<longrightarrow> cell_at ps1 y x \<noteq> [])" if "inb w h y x" for y x
    using set2_cell_at[OF sh(1) n(1) st that] n(2) new by auto
  ultimately show ?thesis unfolding shrinks_def by blast
qed

lemma propagate_neighbors_step:
  assumes "propagate_neighbors g cur cs w h ((nx, ny, d) # ns) ps stack = Inr (Some R)"
  shows "(\<not> inb w h ny nx \<and> propagate_neighbors g cur cs w h ns ps stack = Inr (Some R))
       \<or> (inb w h ny nx \<and> get2 cs ny nx = Inr True
            \<and> propagate_neighbors g cur cs w h ns ps stack = Inr (Some R))
       \<or> (\<exists>valid old. inb w h ny nx \<and> get2 cs ny nx = Inr False
            \<and> valid_for_neighbor (adjacency_rules g) cur d = Inr valid
            \<and> get2 ps ny nx = Inr old \<and> filter (\<lambda>t. t \<in> set valid) old \<noteq> []
            \<and> ((\<exists>ps1. length (filter (\<lambda>t. t \<in> set valid) old) < length old
                   \<and> set2 ps ny nx (filter (\<lambda>t. t \<in> set valid) old) = Inr ps1
                   \<and> propagate_neighbors g cur cs w h ns ps1 ((nx, ny) # stack) = Inr (Some R))
               \<or> (filter (\<lambda>t. t \<in> set valid) old = old
                   \<and> propagate_neighbors g cur cs w h ns ps stack = Inr (Some R))))"
proof (cases "inb w h ny nx")
  case False
  with assms show ?thesis by (auto simp: inb_def)
next
  case True
  then have b: "\<not> (nx < 0 \<or> nx \<ge> w \<or> ny < 0 \<or> ny \<ge> h)" by (auto simp: inb_def)
  from assms b obtain c where c: "get2 cs ny nx = Inr c" by (auto split: sum.splits)
  show ?thesis
  proof (cases c)
    case True
    with assms b c \<open>inb w h ny nx\<close> show ?thesis by simp
  next
    case False
    from assms b c False obtain valid where v: "valid_for_neighbor (adjacency_rules g) cur d = Inr valid"
      by (auto split: sum.splits)
    from assms b c False v obtain old where old: "get2 ps ny nx = Inr old"
      by (auto split: sum.splits)
    let ?new = "filter (\<lambda>t. t \<in> set valid) old"
    from assms b c False v old have ne: "?new \<noteq> []"
      by (auto simp: Let_def split: if_splits)
    show ?thesis
    proof (cases "length ?new < length old")
      case True
      with assms b c False v old ne obtain ps1 where "set2 ps ny nx ?new = Inr ps1"
        "propagate_neighbors g cur cs w h ns ps1 ((nx, ny) # stack) = Inr (Some R)"
        by (auto simp: Let_def split: sum.splits)
      with True c False v old ne \<open>inb w h ny nx\<close> show ?thesis by auto
    next
      case nl: False
      then have "length ?new = length old" using length_filter_le[of "\<lambda>t. t \<in> set valid" old] by simp
      then have same: "?new = old" by (metis filter_True length_filter_less not_less_iff_gr_or_eq)
      from assms b c False v old ne nl
      have "propagate_neighbors g cur cs w h ns ps stack = Inr (Some R)" by (simp add: Let_def)
      with same c False v old ne \<open>inb w h ny nx\<close> show ?thesis by auto
    qed
  qed
qed

lemma propagate_neighbors_shrinks:
  "propagate_neighbors g cur cs w h ns ps stack = Inr (Some (ps', stack'))
   \<Longrightarrow> shaped w h ps \<Longrightarrow> shaped w h cs
   \<Longrightarrow> shrinks w h cs ps ps'
       \<and> (\<forall>(nx, ny, d) \<in> set ns. inb w h ny nx \<and> \<not> cell_at cs ny nx \<longrightarrow>
             (\<exists>valid. valid_for_neighbor (adjacency_rules g) cur d = Inr valid
                  \<and> set (cell_at ps' ny nx) \<subseteq> set valid))"
proof (induction ns arbitrary: ps stack)
  case Nil
  then show ?case by (simp add: shrinks_refl)
next
  case (Cons n ns)
  obtain nx ny d where n: "n = (nx, ny, d)" by (cases n)
  let ?C = "\<lambda>ps' n. case n of (nx, ny, d) \<Rightarrow> inb w h ny nx \<and> \<not> cell_at cs ny nx \<longrightarrow>
             (\<exists>valid. valid_for_neighbor (adjacency_rules g) cur d = Inr valid
                  \<and> set (cell_at ps' ny nx) \<subseteq> set valid)"
  from propagate_neighbors_step[OF Cons.prems(1)[unfolded n]]
  consider
    (skip) "\<not> inb w h ny nx \<or> (inb w h ny nx \<and> get2 cs ny nx = Inr True)"
      "propagate_neighbors g cur cs w h ns ps stack = Inr (Some (ps', stack'))"
  | (store) valid old ps1 where "inb w h ny nx" "get2 cs ny nx = Inr False"
      "valid_for_neighbor (adjacency_rules g) cur d = Inr valid" "get2 ps ny nx = Inr old"
      "filter (\<lambda>t. t \<in> set valid) old \<noteq> []"
      "set2 ps ny nx (filter (\<lambda>t. t \<in> set valid) old) = Inr ps1"
      "propagate_neighbors g cur cs w h ns ps1 ((nx, ny) # stack) = Inr (Some (ps', stack'))"
  | (same) valid old where "inb w h ny nx" "get2 cs ny nx = Inr False"
      "valid_for_neighbor (adjacency_rules g) cur d = Inr valid" "get2 ps ny nx = Inr old"
      "filter (\<lambda>t. t \<in> set valid) old = old"
      "propagate_neighbors g cur cs w h ns ps stack = Inr (Some (ps', stack'))"
    by blast
  then show ?case
  proof cases
    case skip
    from Cons.IH[OF skip(2) Cons.prems(2,3)]
    have sh: "shrinks w h cs ps ps'" and rest: "\<forall>n \<in> set ns. ?C ps' n" by auto
    have "?C ps' n"
    proof (cases "inb w h ny nx")
      case False
      then show ?thesis by (simp add: n)
    next
      case True
      with skip(1) have "get2 cs ny nx = Inr True" by simp
      with get2_inb[OF Cons.prems(3) True] have "cell_at cs ny nx" by simp
      then show ?thesis by (simp add: n)
    qed
    with sh rest show ?thesis by simp
  next
    case store
    let ?new = "filter (\<lambda>t. t \<in> set valid) old"
    from store(2) get2_inb[OF Cons.prems(3) store(1)] have un: "\<not> cell_at cs ny nx" by simp
    from store(4) get2_inb[OF Cons.prems(2) store(1)] have old: "old = cell_at ps ny nx" by simp
    have sub: "set ?new \<subseteq> set (cell_at ps ny nx)" unfolding old by auto
    have s1: "shrinks w h cs ps ps1"
      using shrinks_store[OF Cons.prems(2,3) store(1) un sub store(5) store(6)] .
    from Cons.IH[OF store(7) shrinks_shaped[OF s1] Cons.prems(3)]
    have s2: "shrinks w h cs ps1 ps'" and rest: "\<forall>n \<in> set ns. ?C ps' n" by auto
    have "cell_at ps1 ny nx = ?new"
      using set2_cell_at[OF Cons.prems(2) store(1) store(6) store(1)] by simp
    with shrinks_cell(1)[OF s2 store(1)] have "set (cell_at ps' ny nx) \<subseteq> set valid" by auto
    with store(3) have "?C ps' n" by (simp add: n)
    with shrinks_trans[OF s1 s2] rest show ?thesis by simp
  next
    case same
    from Cons.IH[OF same(6) Cons.prems(2,3)]
    have sh: "shrinks w h cs ps ps'" and rest: "\<forall>n \<in> set ns. ?C ps' n" by auto
    from same(4) get2_inb[OF Cons.prems(2) same(1)] have old: "old = cell_at ps ny nx" by simp
    have "set (filter (\<lambda>t. t \<in> set valid) old) \<subseteq> set valid" by auto
    with same(5) have "set old \<subseteq> set valid" by simp
    with shrinks_cell(1)[OF sh same(1)] old have "set (cell_at ps' ny nx) \<subseteq> set valid" by auto
    with same(3) have "?C ps' n" by (simp add: n)
    with sh rest show ?thesis by simp
  qed
qed

lemma propagate_loop_shrinks:
  "propagate_loop g cs w h ps stack = Inr (Some ps') \<Longrightarrow> shaped w h ps \<Longrightarrow> shaped w h cs
   \<Longrightarrow> shrinks w h cs ps ps'"
proof (induction g cs w h ps stack rule: propagate_loop.induct)
  case (1 g cs w h ps)
  then show ?case by (simp add: shrinks_refl)
next
  case (2 g cs w h ps cx cy stack)
  let ?ns = "[(cx, cy - 1, North), (cx, cy + 1, South), (cx + 1, cy, East), (cx - 1, cy, West)]"
  from "2.prems"(1) obtain cur where cur: "get2 ps cy cx = Inr cur"
    by (auto simp del: propagate_neighbors.simps split: sum.splits)
  from "2.prems"(1) cur obtain ps1 stack1 where
    pn: "propagate_neighbors g cur cs w h ?ns ps stack = Inr (Some (ps1, stack1))"
    and rec: "propagate_loop g cs w h ps1 stack1 = Inr (Some ps')"
    by (auto simp del: propagate_neighbors.simps split: sum.splits option.splits)
  from propagate_neighbors_shrinks[OF pn "2.prems"(2,3)] have s1: "shrinks w h cs ps ps1" by simp
  from "2.IH"[OF cur pn refl refl rec shrinks_shaped[OF s1] "2.prems"(3)]
  have "shrinks w h cs ps1 ps'" .
  with s1 show ?case by (rule shrinks_trans)
qed

section \<open>The collapsed tile is one of the cell's possibilities\<close>

lemma bisect_right_range:
  "lo \<le> hi \<Longrightarrow> lo \<le> bisect_right a x lo hi \<and> bisect_right a x lo hi \<le> hi"
proof (induction a x lo hi rule: bisect_right.induct)
  case (1 a x lo hi)
  let ?mid = "(lo + hi) div 2"
  have unf: "bisect_right a x lo hi =
      (if lo < hi then (if x < a ! ?mid then bisect_right a x lo ?mid
                        else bisect_right a x (?mid + 1) hi) else lo)"
    by (subst bisect_right.simps) (simp add: Let_def)
  show ?case
  proof (cases "lo < hi")
    case False
    with "1.prems" unf show ?thesis by simp
  next
    case True
    have m: "lo \<le> ?mid" "?mid < hi" "?mid + 1 \<le> hi" using True by auto
    show ?thesis
    proof (cases "x < a ! ?mid")
      case lt: True
      from "1.IH"(1)[OF True refl lt m(1)] have
        "lo \<le> bisect_right a x lo ?mid \<and> bisect_right a x lo ?mid \<le> ?mid" .
      with unf True lt m show ?thesis by simp
    next
      case ge: False
      from "1.IH"(2)[OF True refl ge m(3)] have
        "?mid + 1 \<le> bisect_right a x (?mid + 1) hi \<and> bisect_right a x (?mid + 1) hi \<le> hi" .
      with unf True ge m show ?thesis by simp
    qed
  qed
qed

lemma random_choices_member:
  assumes "random_choices population weights r = Inr (c, r')"
  shows "c \<in> set population \<and> r' = random_rest r"
proof -
  let ?n = "length population"
  let ?cum = "accumulate weights"
  let ?i = "bisect_right ?cum (random_value r * last ?cum) 0 (?n - 1)"
  from assms have n: "length ?cum = ?n" "?cum \<noteq> []"
    and c: "c = population ! ?i" and r: "r' = random_rest r"
    by (auto simp: random_choices_def Let_def split: if_splits)
  from n have pos: "0 < ?n" by auto
  from bisect_right_range[of 0 "?n - 1" ?cum "random_value r * last ?cum"]
  have "?i \<le> ?n - 1" by simp
  with pos have "?i < ?n" by linarith
  with c r show ?thesis by simp
qed

lemma make_tile_by_id_Some:
  "make_tile_by_id ts tid = Some t \<Longrightarrow> tile_id t = tid \<and> t \<in> set ts"
  by (auto simp: make_tile_by_id_def dest!: map_of_SomeD)

lemma collapse_cell_member:
  assumes "collapse_cell g possible r = Inr (t, r')" and "tile_by_id g = make_tile_by_id (tiles g)"
  shows "t \<in> set possible"
proof -
  let ?f = "\<lambda>tid. case tile_by_id g tid of None \<Rightarrow> Inl KeyError | Some t \<Rightarrow> Inr t"
  from assms(1) obtain ts where ts: "collect ?f possible = Inr ts"
    by (cases "collect ?f possible") (simp_all add: collapse_cell_def)
  from assms(1) ts obtain chosen where
    ch: "random_choices ts (map weight ts) r = Inr (chosen, r')" and t: "t = tile_id chosen"
    by (cases "random_choices ts (map weight ts) r") (auto simp: collapse_cell_def)
  from random_choices_member[OF ch] have "chosen \<in> set ts" by simp
  then obtain i where i: "i < length ts" "ts ! i = chosen" by (auto simp: in_set_conv_nth)
  from collect_list_all2[OF ts] have len: "length possible = length ts"
    and nth: "\<And>j. j < length ts \<Longrightarrow> ?f (possible ! j) = Inr (ts ! j)"
    by (simp_all add: list_all2_conv_all_nth)
  from nth[OF i(1)] i(2) have "tile_by_id g (possible ! i) = Some chosen"
    by (cases "tile_by_id g (possible ! i)") simp_all
  with assms(2) make_tile_by_id_Some[of "tiles g" "possible ! i" chosen]
  have "tile_id chosen = possible ! i" by simp
  with i(1) len t show ?thesis by simp
qed

section \<open>What the selection returns\<close>

lemma find_min_Some:
  assumes "find_min_entropy_cell ps cs r = Inr (Some c, r')"
  shows "c \<in> set (scan_order ps) \<and> unresolved_at cs c"
proof -
  have "scan_good ps cs {} None None" by (simp add: scan_good_def)
  from scan_cells_good[OF assms[unfolded find_min_entropy_cell_def] this]
  show ?thesis by (auto simp: scan_good_def)
qed

lemma scan_cells_None_step:
  assumes "scan_cells ps cs ((y, x) # rest) me mc r = Inr (None, r')"
  shows "(get2 cs y x = Inr True \<and> scan_cells ps cs rest me mc r = Inr (None, r'))
       \<or> (get2 cs y x = Inr False \<and> get2 ps y x = Inr [])
       \<or> (\<exists>e c. get2 cs y x = Inr False
            \<and> scan_cells ps cs rest (Some e) (Some c) (random_rest r) = Inr (None, r'))
       \<or> (get2 cs y x = Inr False \<and> me \<noteq> None
            \<and> scan_cells ps cs rest me mc (random_rest r) = Inr (None, r'))"
  using assms by (auto simp: Let_def split: sum.splits if_splits option.splits)

lemma scan_cells_None:
  "scan_cells ps cs cells me mc r = Inr (None, r') \<Longrightarrow> (mc = None \<longrightarrow> me = None)
   \<Longrightarrow> (\<exists>c \<in> set cells. unresolved_at cs c \<and> get2 ps (fst c) (snd c) = Inr [])
       \<or> (mc = None \<and> (\<forall>c \<in> set cells. get2 cs (fst c) (snd c) = Inr True))"
proof (induction cells arbitrary: me mc r)
  case Nil
  then show ?case by simp
next
  case (Cons a cells)
  obtain y x where a: "a = (y, x)" by (cases a)
  let ?E = "\<lambda>cells. \<exists>c \<in> set cells. unresolved_at cs c \<and> get2 ps (fst c) (snd c) = Inr []"
  from scan_cells_None_step[OF Cons.prems(1)[unfolded a]]
  consider
    (collapsed) "get2 cs y x = Inr True" "scan_cells ps cs cells me mc r = Inr (None, r')"
  | (empty) "get2 cs y x = Inr False" "get2 ps y x = Inr []"
  | (take) e c where "get2 cs y x = Inr False"
      "scan_cells ps cs cells (Some e) (Some c) (random_rest r) = Inr (None, r')"
  | (keep) "get2 cs y x = Inr False" "me \<noteq> None"
      "scan_cells ps cs cells me mc (random_rest r) = Inr (None, r')"
    by blast
  then show ?case
  proof cases
    case collapsed
    from Cons.IH[OF collapsed(2) Cons.prems(2)] collapsed(1) show ?thesis by (auto simp: a)
  next
    case empty
    then have "unresolved_at cs a \<and> get2 ps (fst a) (snd a) = Inr []"
      by (simp add: a unresolved_at_def)
    then show ?thesis by auto
  next
    case take
    from Cons.IH[OF take(2)] have "?E cells" by simp
    then show ?thesis by auto
  next
    case keep
    from keep(2) Cons.prems(2) have "mc \<noteq> None" by auto
    with Cons.IH[OF keep(3) Cons.prems(2)] have "?E cells" by simp
    then show ?thesis by auto
  qed
qed

lemma find_min_None:
  assumes "find_min_entropy_cell ps cs r = Inr (None, r')" "shaped w h ps" "shaped w h cs"
  shows "(\<exists>y x. inb w h y x \<and> \<not> cell_at cs y x \<and> cell_at ps y x = [])
       \<or> (\<forall>y x. inb w h y x \<longrightarrow> cell_at cs y x)"
proof -
  from scan_cells_None[OF assms(1)[unfolded find_min_entropy_cell_def]]
  consider (empty) c where "c \<in> set (scan_order ps)" "unresolved_at cs c"
      "get2 ps (fst c) (snd c) = Inr []"
    | (finished) "\<forall>c \<in> set (scan_order ps). get2 cs (fst c) (snd c) = Inr True"
    by blast
  then show ?thesis
  proof cases
    case empty
    obtain y x where c: "c = (y, x)" by (cases c)
    from empty(1) scan_order_shaped[OF assms(2)] c have i: "inb w h y x" by auto
    from empty(2,3) c get2_inb[OF assms(2) i] get2_inb[OF assms(3) i]
    have "\<not> cell_at cs y x" "cell_at ps y x = []" by (auto simp: unresolved_at_def)
    with i show ?thesis by blast
  next
    case finished
    have "cell_at cs y x" if i: "inb w h y x" for y x
    proof -
      from i scan_order_shaped[OF assms(2)] have "(y, x) \<in> set (scan_order ps)" by auto
      with finished have "get2 cs y x = Inr True" by auto
      with get2_inb[OF assms(3) i] show ?thesis by simp
    qed
    then show ?thesis by blast
  qed
qed

lemma find_min_Some_inb:
  assumes "find_min_entropy_cell ps cs r = Inr (Some (y, x), r')" "shaped w h ps" "shaped w h cs"
  shows "inb w h y x \<and> \<not> cell_at cs y x"
proof -
  from find_min_Some[OF assms(1)] scan_order_shaped[OF assms(2)]
  have i: "inb w h y x" and u: "unresolved_at cs (y, x)" by auto
  from u get2_inb[OF assms(3) i] have "\<not> cell_at cs y x" by (simp add: unresolved_at_def)
  with i show ?thesis by simp
qed

section \<open>Invariants of the grids\<close>

lemma evolves_trans: "evolves g w h b c \<Longrightarrow> evolves g w h a b \<Longrightarrow> evolves g w h a c"
proof (induction rule: evolves.induct)
  case (evolves_refl s)
  then show ?case .
next
  case (evolves_collapse s ps cs r y x r1 cell t r2 ps1 cs1)
  from evolves.evolves_collapse[OF evolves_collapse.IH[OF evolves_collapse.prems] evolves_collapse.hyps(2-6)]
  show ?case .
next
  case (evolves_neighbors s ps cs cur ns stack ps' stack')
  from evolves.evolves_neighbors[OF evolves_neighbors.IH[OF evolves_neighbors.prems] evolves_neighbors.hyps(2)]
  show ?case .
qed

lemma collapse_step_ok:
  assumes ok: "grid_ok g w h ps cs" and tb: "tile_by_id g = make_tile_by_id (tiles g)"
    and fm: "find_min_entropy_cell ps cs r = Inr (Some (y, x), r1)"
    and ge: "get2 ps y x = Inr cell" and cc: "collapse_cell g cell r1 = Inr (t, r2)"
    and s1: "set2 ps y x [t] = Inr ps1" and s2: "set2 cs y x True = Inr cs1"
  shows "grid_ok g w h ps1 cs1" and "frozen w h ps cs ps1 cs1"
    and "no_empty w h ps cs \<Longrightarrow> no_empty w h ps1 cs1"
    and "inb w h y x" and "\<not> cell_at cs y x" and "t \<in> set (cell_at ps y x)"
proof -
  from ok have sp: "shaped w h ps" and sc: "shaped w h cs" by (simp_all add: grid_ok_def)
  from find_min_Some_inb[OF fm sp sc] show i: "inb w h y x" and u: "\<not> cell_at cs y x" by simp_all
  from ge get2_inb[OF sp i] have cell: "cell = cell_at ps y x" by simp
  from collapse_cell_member[OF cc tb] cell show t: "t \<in> set (cell_at ps y x)" by simp
  note p1 = set2_cell_at[OF sp i s1] and c1 = set2_cell_at[OF sc i s2]
  from ok i t have tid: "t \<in> set (all_tile_ids g)" by (auto simp: grid_ok_def)
  have "set (cell_at ps1 y' x') \<subseteq> set (all_tile_ids g)
         \<and> (cell_at cs1 y' x' \<longrightarrow> (\<exists>t. cell_at ps1 y' x' = [t]))" if j: "inb w h y' x'" for y' x'
    using p1[OF j] c1[OF j] ok j tid by (auto simp: grid_ok_def)
  with set2_shaped[OF sp i s1] set2_shaped[OF sc i s2] show "grid_ok g w h ps1 cs1"
    unfolding grid_ok_def by blast
  show "frozen w h ps cs ps1 cs1"
    unfolding frozen_def using p1 c1 u by auto
  show "no_empty w h ps1 cs1" if "no_empty w h ps cs"
    unfolding no_empty_def using p1 c1 that by (auto simp: no_empty_def)
qed

lemma shrinks_ok:
  assumes ok: "grid_ok g w h ps cs" and sh: "shrinks w h cs ps ps'"
  shows "grid_ok g w h ps' cs" and "frozen w h ps cs ps' cs"
    and "no_empty w h ps cs \<Longrightarrow> no_empty w h ps' cs"
proof -
  from ok have sc: "shaped w h cs" by (simp add: grid_ok_def)
  have "set (cell_at ps' y x) \<subseteq> set (all_tile_ids g)
         \<and> (cell_at cs y x \<longrightarrow> (\<exists>t. cell_at ps' y x = [t]))" if j: "inb w h y x" for y x
    using shrinks_cell[OF sh j] ok j by (auto simp: grid_ok_def)
  with shrinks_shaped[OF sh] sc show "grid_ok g w h ps' cs" unfolding grid_ok_def by blast
  show "frozen w h ps cs ps' cs" unfolding frozen_def using shrinks_cell(2)[OF sh] by auto
  show "no_empty w h ps' cs" if "no_empty w h ps cs"
    unfolding no_empty_def using shrinks_cell(3)[OF sh] that by (auto simp: no_empty_def)
qed

lemma frozen_trans:
  "frozen w h ps cs ps1 cs1 \<Longrightarrow> frozen w h ps1 cs1 ps2 cs2 \<Longrightarrow> frozen w h ps cs ps2 cs2"
  unfolding frozen_def by metis

lemma frozen_refl: "frozen w h ps cs ps cs"
  by (simp add: frozen_def)

lemma evolves_ok:
  assumes "evolves g w h s s'" and "s = (ps0, cs0)" and "s' = (ps, cs)"
    and "grid_ok g w h ps0 cs0" and "tile_by_id g = make_tile_by_id (tiles g)"
  shows "grid_ok g w h ps cs \<and> frozen w h ps0 cs0 ps cs
       \<and> (no_empty w h ps0 cs0 \<longrightarrow> no_empty w h ps cs)"
  using assms
proof (induction arbitrary: ps cs rule: evolves.induct)
  case (evolves_refl s)
  then show ?case by (simp add: frozen_refl)
next
  case (evolves_collapse s ps' cs' r y x r1 cell t r2 ps1 cs1)
  from evolves_collapse.IH[OF evolves_collapse.prems(1) refl evolves_collapse.prems(3,4)]
  have ok: "grid_ok g w h ps' cs'" and fr: "frozen w h ps0 cs0 ps' cs'"
    and ne: "no_empty w h ps0 cs0 \<longrightarrow> no_empty w h ps' cs'" by simp_all
  from evolves_collapse.prems(2) have e: "ps = ps1" "cs = cs1" by simp_all
  note st = collapse_step_ok[OF ok evolves_collapse.prems(4) evolves_collapse.hyps(2-6)]
  from st(1) frozen_trans[OF fr st(2)] st(3) ne show ?case unfolding e by blast
next
  case (evolves_neighbors s ps' cs' cur ns stack ps'' stack')
  from evolves_neighbors.IH[OF evolves_neighbors.prems(1) refl evolves_neighbors.prems(3,4)]
  have ok: "grid_ok g w h ps' cs'" and fr: "frozen w h ps0 cs0 ps' cs'"
    and ne: "no_empty w h ps0 cs0 \<longrightarrow> no_empty w h ps' cs'" by simp_all
  from evolves_neighbors.prems(2) have e: "ps = ps''" "cs = cs'" by simp_all
  from ok have sp: "shaped w h ps'" and sc: "shaped w h cs'" by (simp_all add: grid_ok_def)
  from propagate_neighbors_shrinks[OF evolves_neighbors.hyps(2) sp sc]
  have sh: "shrinks w h cs' ps' ps''" by simp
  note st = shrinks_ok[OF ok sh]
  from st(1) frozen_trans[OF fr st(2)] st(3) ne show ?case unfolding e by blast
qed

section \<open>The loops of the program take these steps\<close>

lemma propagate_loop_evolves:
  "propagate_loop g cs w h ps stack = Inr (Some ps') \<Longrightarrow> evolves g w h s (ps, cs)
   \<Longrightarrow> evolves g w h s (ps', cs)"
proof (induction g cs w h ps stack rule: propagate_loop.induct)
  case (1 g cs w h ps)
  then show ?case by simp
next
  case (2 g cs w h ps cx cy stack)
  let ?ns = "[(cx, cy - 1, North), (cx, cy + 1, South), (cx + 1, cy, East), (cx - 1, cy, West)]"
  from "2.prems"(1) obtain cur where cur: "get2 ps cy cx = Inr cur"
    by (auto simp del: propagate_neighbors.simps split: sum.splits)
  from "2.prems"(1) cur obtain ps1 stack1 where
    pn: "propagate_neighbors g cur cs w h ?ns ps stack = Inr (Some (ps1, stack1))"
    and rec: "propagate_loop g cs w h ps1 stack1 = Inr (Some ps')"
    by (auto simp del: propagate_neighbors.simps split: sum.splits option.splits)
  from "2.IH"[OF cur pn refl refl rec evolves_neighbors[OF "2.prems"(2) pn]]
  show ?case .
qed

lemma loop_body_Continue:
  assumes "loop_body g w h st = Inr (Continue st')"
  obtains y x r1 cell t ps1 where
    "find_min_entropy_cell (possibilities st) (collapsed st) (random_state st) = Inr (Some (y, x), r1)"
    "get2 (possibilities st) y x = Inr cell"
    "collapse_cell g cell r1 = Inr (t, random_state st')"
    "set2 (possibilities st) y x [t] = Inr ps1"
    "set2 (collapsed st) y x True = Inr (collapsed st')"
    "propagate g ps1 (collapsed st') x y w h = Inr (Some (possibilities st'))"
    "iterations st' = iterations st + 1"
  using assms unfolding loop_body_def
  by (auto split: sum.splits option.splits prod.splits)

lemma loop_body_Break:
  assumes "loop_body g w h st = Inr (Break st')"
  shows "possibilities st' = possibilities st \<and> collapsed st' = collapsed st
       \<and> iterations st' = iterations st + 1
       \<and> (\<exists>r'. find_min_entropy_cell (possibilities st) (collapsed st) (random_state st)
                  = Inr (None, r'))"
  using assms unfolding loop_body_def
  by (auto split: sum.splits option.splits prod.splits)

lemma loop_body_evolves:
  assumes "loop_body g w h st = Inr (Continue st')"
    and "evolves g w h s (possibilities st, collapsed st)"
  shows "evolves g w h s (possibilities st', collapsed st')"
proof -
  from assms(1) obtain y x r1 cell t ps1 where
    b: "find_min_entropy_cell (possibilities st) (collapsed st) (random_state st) = Inr (Some (y, x), r1)"
    "get2 (possibilities st) y x = Inr cell"
    "collapse_cell g cell r1 = Inr (t, random_state st')"
    "set2 (possibilities st) y x [t] = Inr ps1"
    "set2 (collapsed st) y x True = Inr (collapsed st')"
    "propagate g ps1 (collapsed st') x y w h = Inr (Some (possibilities st'))"
    by (rule loop_body_Continue)
  from evolves_collapse[OF assms(2) b(1-5)] have "evolves g w h s (ps1, collapsed st')" .
  from propagate_loop_evolves[OF b(6)[unfolded propagate_def] this] show ?thesis .
qed

lemma wfc_loop_evolves:
  "wfc_loop g w h mx st = Inr st' \<Longrightarrow> evolves g w h s (possibilities st, collapsed st)
   \<Longrightarrow> evolves g w h s (possibilities st', collapsed st')"
proof (induction g w h mx st rule: wfc_loop.induct)
  case (1 g w h mx st)
  show ?case
  proof (cases "\<not> is_fully_collapsed (collapsed st) \<and> iterations st < mx")
    case False
    with "1.prems" show ?thesis by auto
  next
    case True
    show ?thesis
    proof (cases "loop_body g w h st")
      case (Inl e)
      with True "1.prems" show ?thesis by simp
    next
      case (Inr b)
      show ?thesis
      proof (cases b)
        case (Break st1)
        with True Inr "1.prems" have "st' = st1" by simp
        with loop_body_Break[OF Inr[unfolded Break]] "1.prems"(2) show ?thesis by simp
      next
        case (Continue st1)
        with True Inr "1.prems" have rec: "wfc_loop g w h mx st1 = Inr st'" by simp
        from "1.IH"[OF True Inr Continue rec loop_body_evolves[OF Inr[unfolded Continue] "1.prems"(2)]]
        show ?thesis .
      qed
    qed
  qed
qed

lemma initial_ok:
  "grid_ok g w h (possibilities (initial_state g w h r)) (collapsed (initial_state g w h r))"
  by (simp add: grid_ok_def initial_state_def shaped_replicate cell_at_replicate)


section \<open>The returned grid\<close>

lemma py_range_nth: "length (py_range n) = nat n" "i < nat n \<Longrightarrow> py_range n ! i = int i"
  by (simp_all add: py_range_def)

lemma final_grid_cells:
  assumes fg: "final_grid ps w h = Inr grid" and sp: "shaped w h ps"
  shows "shaped w h grid"
    and "inb w h y x \<Longrightarrow> cell_at ps y x \<noteq> [] \<and> cell_at grid y x = hd (cell_at ps y x)"
proof -
  let ?cellf = "\<lambda>y x. case get2 ps y x of Inl e \<Rightarrow> Inl e
                     | Inr s \<Rightarrow> (case s of [] \<Rightarrow> Inl IndexError | t # _ \<Rightarrow> Inr t)"
  let ?rowf = "\<lambda>y. collect (?cellf y) (py_range w)"
  from collect_list_all2[OF fg[unfolded final_grid_def]]
  have rows: "list_all2 (\<lambda>y rw. ?rowf y = Inr rw) (py_range h) grid" .
  then have lg: "length grid = nat h" by (simp add: list_all2_lengthD[symmetric] py_range_nth)
  have row: "?rowf (int i) = Inr (grid ! i)" if "i < nat h" for i
    using list_all2_nthD[OF rows, of i] that by (simp add: py_range_nth)
  have cells: "list_all2 (\<lambda>x v. ?cellf (int i) x = Inr v) (py_range w) (grid ! i)" if "i < nat h" for i
    using collect_list_all2[OF row[OF that]] .
  have lr: "length (grid ! i) = nat w" if "i < nat h" for i
    using list_all2_lengthD[OF cells[OF that]] by (simp add: py_range_nth)
  show "shaped w h grid"
    unfolding shaped_def using lg lr by (auto simp: in_set_conv_nth)
  show "cell_at ps y x \<noteq> [] \<and> cell_at grid y x = hd (cell_at ps y x)" if i: "inb w h y x"
  proof -
    from i have b: "nat y < nat h" "nat x < nat w" "int (nat y) = y" "int (nat x) = x"
      by (auto simp: inb_def)
    from list_all2_nthD[OF cells[OF b(1)], of "nat x"] b
    have "?cellf y x = Inr (grid ! nat y ! nat x)" by (simp add: py_range_nth)
    with get2_inb[OF sp i] show ?thesis
      by (cases "cell_at ps y x") (simp_all add: cell_at_def)
  qed
qed

lemma generate_success:
  assumes "generate sd g w h seed r = Inr grid"
  obtains st r0 where "wfc_loop g w h (w * h * 100) (initial_state g w h r0) = Inr st"
    "iterations st < w * h * 100" "final_grid (possibilities st) w h = Inr grid"
  using assms unfolding generate_def Let_def
  by (auto simp del: wfc_loop.simps split: sum.splits if_splits)

lemma catalog_ids: "set (all_tile_ids g) = tile_id ` set (tiles g)"
  by (simp add: all_tile_ids_def)

text \<open>
  C2. A grid returned by \<open>generate\<close> has height rows (\<open>grid[y]\<close>) of width entries
  (\<open>grid[y][x]\<close>), and every entry is the identifier of a tile of the catalog the
  generator has loaded (\<open>self.tiles\<close>).
\<close>

theorem generated_grid_total:
  assumes "WFCGenerator_init doc = Inr g" and "generate sd g w h seed r = Inr grid"
  shows "length grid = nat h \<and> (\<forall>rw \<in> set grid. length rw = nat w)
       \<and> (\<forall>y x. inb w h y x \<longrightarrow> cell_at grid y x \<in> tile_id ` set (tiles g))
       \<and> (\<forall>rw \<in> set grid. \<forall>t \<in> set rw. t \<in> tile_id ` set (tiles g))"
proof -
  from assms(2) obtain st r0 where
    lp: "wfc_loop g w h (w * h * 100) (initial_state g w h r0) = Inr st"
    and fg: "final_grid (possibilities st) w h = Inr grid"
    by (rule generate_success)
  from evolves_ok[OF wfc_loop_evolves[OF lp evolves_refl] refl refl initial_ok
      init_fields(2)[OF assms(1)]]
  have ok: "grid_ok g w h (possibilities st) (collapsed st)" by simp
  then have sp: "shaped w h (possibilities st)" by (simp add: grid_ok_def)
  note fc = final_grid_cells[OF fg sp]
  have cellin: "cell_at grid y x \<in> tile_id ` set (tiles g)" if i: "inb w h y x" for y x
  proof -
    from fc(2)[OF i] have "cell_at grid y x \<in> set (cell_at (possibilities st) y x)" by simp
    with ok i have "cell_at grid y x \<in> set (all_tile_ids g)" by (auto simp: grid_ok_def)
    with catalog_ids[of g] show ?thesis by simp
  qed
  have "t \<in> tile_id ` set (tiles g)" if "rw \<in> set grid" "t \<in> set rw" for rw t
  proof -
    from that(1) obtain i where i: "i < length grid" "rw = grid ! i" by (auto simp: in_set_conv_nth)
    from that(2) obtain j where j: "j < length rw" "t = rw ! j" by (auto simp: in_set_conv_nth)
    from fc(1) i j have "i < nat h" "j < nat w" by (auto simp: shaped_def)
    then have "inb w h (int i) (int j)" by (auto simp: inb_def)
    from cellin[OF this] i j show ?thesis by (simp add: cell_at_def)
  qed
  with fc(1) cellin show ?thesis unfolding shaped_def by blast
qed

text \<open>C2 at the grid [[A, A]] returned for the scenario catalog on 2 by 1.\<close>

theorem generated_grid_total_witness:
  "generate (\<lambda>s n. 0) grass_water_generator 2 1 None (\<lambda>n. 0) = Inr [[0, 0]]
   \<and> length [[0, 0 :: int]] = nat 1
   \<and> cell_at [[0, 0 :: int]] 0 1 \<in> tile_id ` set (tiles grass_water_generator)"
proof -
  have i: "inb 2 1 0 1" by (simp add: inb_def)
  from generated_grid_total[OF init_grass_water run_2x1_zero[of "\<lambda>s n. 0"]] i
  have "length [[0, 0 :: int]] = nat 1"
    "cell_at [[0, 0 :: int]] 0 1 \<in> tile_id ` set (tiles grass_water_generator)"
    by blast+
  with run_2x1_zero[of "\<lambda>s n. 0"] show ?thesis by blast
qed





section \<open>Adjacent cells of a returned grid\<close>

lemma neighbor_back: "neighbor (opposite d) (fst (neighbor d y x)) (snd (neighbor d y x)) = (y, x)"
  by (cases d) simp_all

lemma neighbor_other: "neighbor d y x \<noteq> (y, x)"
  by (cases d) simp_all

lemma make_tile_by_id_distinct:
  assumes "distinct (map tile_id ts)" "t \<in> set ts"
  shows "make_tile_by_id ts (tile_id t) = Some t"
proof -
  let ?xs = "rev (map (\<lambda>t. (tile_id t, t)) ts)"
  have "map fst ?xs = rev (map tile_id ts)" by (simp add: rev_map comp_def)
  with assms(1) have "distinct (map fst ?xs)" by simp
  moreover from assms(2) have "(tile_id t, t) \<in> set ?xs" by auto
  ultimately show ?thesis unfolding make_tile_by_id_def by (rule map_of_is_SomeI)
qed

lemma allowed_connect:
  assumes rs: "compute_adjacency_rules ts = Inr rs" and d: "distinct (map tile_id ts)"
    and A: "A \<in> set ts" and B: "B \<in> set ts"
  shows "allowed rs (tile_id A) dir (tile_id B) \<longleftrightarrow> can_connect A B dir = Inr True"
proof -
  from rules_member[OF rs d A B] obtain eA where "rs (tile_id A) = Some eA"
    "\<And>d. tile_id B \<in> set (eA d) \<longleftrightarrow> can_connect A B d = Inr True" by blast
  then show ?thesis by (simp add: allowed_def)
qed

lemma allowed_sym:
  assumes rs: "compute_adjacency_rules ts = Inr rs" and d: "distinct (map tile_id ts)"
    and a: "a \<in> tile_id ` set ts" and b: "b \<in> tile_id ` set ts"
    and al: "allowed rs a dir b"
  shows "allowed rs b (opposite dir) a"
proof -
  from a b obtain A B where A: "A \<in> set ts" "a = tile_id A" and B: "B \<in> set ts" "b = tile_id B"
    by auto
  from al allowed_connect[OF rs d A(1) B(1), of dir] A(2) B(2)
  have "can_connect A B dir = Inr True" by simp
  then have "can_connect B A (opposite dir) = Inr True"
    using can_connect_opposite[of A B dir] by simp
  with allowed_connect[OF rs d B(1) A(1), of "opposite dir"] A(2) B(2) show ?thesis by simp
qed

lemma valid_single:
  assumes "valid_for_neighbor rs [t] d = Inr valid" and "t' \<in> set valid"
  shows "allowed rs t d t'"
  using assms by (auto simp: allowed_def split: option.splits)

lemma propagate_from_collapsed:
  assumes sp: "shaped w h ps1" and sc: "shaped w h cs1"
    and i: "inb w h y x" and c: "cell_at ps1 y x = [t]"
    and pr: "propagate g ps1 cs1 x y w h = Inr (Some ps2)"
  shows "shrinks w h cs1 ps1 ps2"
    and "inb w h (fst (neighbor d y x)) (snd (neighbor d y x))
         \<Longrightarrow> \<not> cell_at cs1 (fst (neighbor d y x)) (snd (neighbor d y x))
         \<Longrightarrow> t' \<in> set (cell_at ps2 (fst (neighbor d y x)) (snd (neighbor d y x)))
         \<Longrightarrow> allowed (adjacency_rules g) t d t'"
proof -
  let ?ns = "[(x, y - 1, North), (x, y + 1, South), (x + 1, y, East), (x - 1, y, West)]"
  from get2_inb[OF sp i] c have cur: "get2 ps1 y x = Inr [t]" by simp
  from pr cur obtain pa stack1 where
    pn: "propagate_neighbors g [t] cs1 w h ?ns ps1 [] = Inr (Some (pa, stack1))"
    and rec: "propagate_loop g cs1 w h pa stack1 = Inr (Some ps2)"
    unfolding propagate_def
    by (auto simp del: propagate_neighbors.simps split: sum.splits option.splits)
  from propagate_neighbors_shrinks[OF pn sp sc]
  have s1: "shrinks w h cs1 ps1 pa"
    and con: "\<forall>(nx, ny, d) \<in> set ?ns. inb w h ny nx \<and> \<not> cell_at cs1 ny nx \<longrightarrow>
             (\<exists>valid. valid_for_neighbor (adjacency_rules g) [t] d = Inr valid
                  \<and> set (cell_at pa ny nx) \<subseteq> set valid)" by simp_all
  from propagate_loop_shrinks[OF rec shrinks_shaped[OF s1] sc] have s2: "shrinks w h cs1 pa ps2" .
  from shrinks_trans[OF s1 s2] show "shrinks w h cs1 ps1 ps2" .
  show "allowed (adjacency_rules g) t d t'"
    if n: "inb w h (fst (neighbor d y x)) (snd (neighbor d y x))"
      and u: "\<not> cell_at cs1 (fst (neighbor d y x)) (snd (neighbor d y x))"
      and t': "t' \<in> set (cell_at ps2 (fst (neighbor d y x)) (snd (neighbor d y x)))"
  proof -
    let ?ny = "fst (neighbor d y x)" and ?nx = "snd (neighbor d y x)"
    have "(?nx, ?ny, d) \<in> set ?ns" by (cases d) simp_all
    with con n u obtain valid where v: "valid_for_neighbor (adjacency_rules g) [t] d = Inr valid"
      "set (cell_at pa ?ny ?nx) \<subseteq> set valid" by blast
    from shrinks_cell(1)[OF s2 n] t' v(2) have "t' \<in> set valid" by auto
    with v(1) show ?thesis by (rule valid_single)
  qed
qed

lemma adj_okD:
  assumes "adj_ok g w h ps cs" "inb w h y x" "cell_at cs y x" "cell_at ps y x = [t]"
    "inb w h (fst (neighbor d y x)) (snd (neighbor d y x))"
    "t' \<in> set (cell_at ps (fst (neighbor d y x)) (snd (neighbor d y x)))"
  shows "allowed (adjacency_rules g) t d t'"
  using assms unfolding adj_ok_def by blast

lemma grid_ok_single:
  "grid_ok g w h ps cs \<Longrightarrow> inb w h y x \<Longrightarrow> cell_at cs y x \<Longrightarrow> \<exists>t. cell_at ps y x = [t]"
  unfolding grid_ok_def by blast

lemma grid_ok_ids:
  "grid_ok g w h ps cs \<Longrightarrow> inb w h y x \<Longrightarrow> set (cell_at ps y x) \<subseteq> tile_id ` set (tiles g)"
  unfolding grid_ok_def all_tile_ids_def by auto

lemma loop_body_adj_ok:
  assumes ok: "grid_ok g w h (possibilities st) (collapsed st)"
    and adj: "adj_ok g w h (possibilities st) (collapsed st)"
    and tb: "tile_by_id g = make_tile_by_id (tiles g)"
    and rs: "compute_adjacency_rules (tiles g) = Inr (adjacency_rules g)"
    and dist: "distinct (map tile_id (tiles g))"
    and body: "loop_body g w h st = Inr (Continue st')"
  shows "adj_ok g w h (possibilities st') (collapsed st')"
proof -
  let ?ps = "possibilities st" and ?cs = "collapsed st"
  let ?ps2 = "possibilities st'" and ?cs1 = "collapsed st'"
  from body obtain y x r1 cell t ps1 where
    b: "find_min_entropy_cell ?ps ?cs (random_state st) = Inr (Some (y, x), r1)"
    "get2 ?ps y x = Inr cell"
    "collapse_cell g cell r1 = Inr (t, random_state st')"
    "set2 ?ps y x [t] = Inr ps1"
    "set2 ?cs y x True = Inr ?cs1"
    "propagate g ps1 ?cs1 x y w h = Inr (Some ?ps2)"
    by (rule loop_body_Continue)
  note st = collapse_step_ok[OF ok tb b(1-5)]
  from ok have sp: "shaped w h ?ps" and sc: "shaped w h ?cs" by (simp_all add: grid_ok_def)
  from st(1) have sp1: "shaped w h ps1" and sc1: "shaped w h ?cs1" by (simp_all add: grid_ok_def)
  note i = st(4) and un = st(5) and tin = st(6)
  note p1 = set2_cell_at[OF sp i b(4)] and c1 = set2_cell_at[OF sc i b(5)]
  have cyx: "cell_at ps1 y x = [t]" using p1[OF i] by simp
  note pr = propagate_from_collapsed[OF sp1 sc1 i cyx b(6)]
  have ids: "set (cell_at ?ps a b) \<subseteq> tile_id ` set (tiles g)" if "inb w h a b" for a b
    using grid_ok_ids[OF ok that] .
  have sub1: "set (cell_at ps1 a b) \<subseteq> set (cell_at ?ps a b)" if "inb w h a b" for a b
    using p1[OF that] tin by auto
  have sub2: "set (cell_at ?ps2 a b) \<subseteq> set (cell_at ?ps a b)" if "inb w h a b" for a b
    using shrinks_cell(1)[OF pr(1) that] sub1[OF that] by blast
  show ?thesis
    unfolding adj_ok_def
  proof (intro allI impI ballI, elim conjE)
    fix a b d u u'
    let ?na = "fst (neighbor d a b)" and ?nb = "snd (neighbor d a b)"
    assume ab: "inb w h a b" and cab: "cell_at ?cs1 a b" and uab: "cell_at ?ps2 a b = [u]"
      and n: "inb w h ?na ?nb" and u': "u' \<in> set (cell_at ?ps2 ?na ?nb)"
    from shrinks_cell(2)[OF pr(1) ab cab] uab have u1: "cell_at ps1 a b = [u]" by simp
    show "allowed (adjacency_rules g) u d u'"
    proof (cases "a = y \<and> b = x")
      case True
      with u1 cyx have ut: "u = t" by simp
      show ?thesis
      proof (cases "cell_at ?cs1 ?na ?nb")
        case False
        from pr(2)[of d u'] n False u' True ut show ?thesis by simp
      next
        case cn: True
        have ne: "\<not> (?na = y \<and> ?nb = x)" using neighbor_other[of d a b] True
          by (metis prod.collapse)
        from c1[OF n] cn ne have cold: "cell_at ?cs ?na ?nb" by simp
        from grid_ok_single[OF ok n cold] obtain v where v: "cell_at ?ps ?na ?nb = [v]" by blast
        from u' sub2[OF n] v have uv: "u' = v" by auto
        have bk: "neighbor (opposite d) ?na ?nb = (y, x)" using neighbor_back[of d a b] True by simp
        have "allowed (adjacency_rules g) v (opposite d) t"
          using adj_okD[OF adj n cold v, of "opposite d" t] bk i tin by simp
        moreover have "v \<in> tile_id ` set (tiles g)" using ids[OF n] v by auto
        moreover have "t \<in> tile_id ` set (tiles g)" using ids[OF i] tin by auto
        ultimately have "allowed (adjacency_rules g) t (opposite (opposite d)) v"
          using allowed_sym[OF rs dist] by blast
        with ut uv show ?thesis by (simp add: opposite_opposite)
      qed
    next
      case False
      from c1[OF ab] cab False have cold: "cell_at ?cs a b" by simp
      from p1[OF ab] u1 False have uold: "cell_at ?ps a b = [u]" by simp
      from u' sub2[OF n] have "u' \<in> set (cell_at ?ps ?na ?nb)" by blast
      from adj_okD[OF adj ab cold uold n this] show ?thesis .
    qed
  qed
qed

lemma fully_collapsed_cell:
  assumes "is_fully_collapsed cs" "shaped w h cs" "inb w h y x"
  shows "cell_at cs y x"
proof -
  note r = shaped_row[OF assms(2,3)]
  from assms(1) r(1) have "list_all (\<lambda>c. c) (cs ! nat y)"
    by (simp add: is_fully_collapsed_def list_all_length)
  with r(3) show ?thesis by (simp add: cell_at_def list_all_length)
qed

lemma wfc_loop_adj_ok:
  "wfc_loop g w h mx st = Inr st'
   \<Longrightarrow> grid_ok g w h (possibilities st) (collapsed st)
   \<Longrightarrow> adj_ok g w h (possibilities st) (collapsed st)
   \<Longrightarrow> tile_by_id g = make_tile_by_id (tiles g)
   \<Longrightarrow> compute_adjacency_rules (tiles g) = Inr (adjacency_rules g)
   \<Longrightarrow> distinct (map tile_id (tiles g))
   \<Longrightarrow> grid_ok g w h (possibilities st') (collapsed st')
       \<and> adj_ok g w h (possibilities st') (collapsed st')
       \<and> ((\<forall>y x. inb w h y x \<longrightarrow> cell_at (collapsed st') y x)
          \<or> mx \<le> iterations st'
          \<or> (\<exists>y x. inb w h y x \<and> cell_at (possibilities st') y x = []))"
proof (induction g w h mx st rule: wfc_loop.induct)
  case (1 g w h mx st)
  note ok = "1.prems"(2) and adj = "1.prems"(3) and tb = "1.prems"(4) and rs = "1.prems"(5)
    and dist = "1.prems"(6)
  from ok have sp: "shaped w h (possibilities st)" and sc: "shaped w h (collapsed st)"
    by (simp_all add: grid_ok_def)
  show ?case
  proof (cases "\<not> is_fully_collapsed (collapsed st) \<and> iterations st < mx")
    case False
    with "1.prems"(1) have e: "st' = st" by auto
    from False have "is_fully_collapsed (collapsed st) \<or> mx \<le> iterations st" by auto
    then have "(\<forall>y x. inb w h y x \<longrightarrow> cell_at (collapsed st) y x) \<or> mx \<le> iterations st"
      using fully_collapsed_cell[OF _ sc] by blast
    with ok adj show ?thesis unfolding e by blast
  next
    case True
    show ?thesis
    proof (cases "loop_body g w h st")
      case (Inl e)
      with True "1.prems"(1) show ?thesis by simp
    next
      case (Inr b)
      show ?thesis
      proof (cases b)
        case (Break st1)
        with True Inr "1.prems"(1) have e: "st' = st1" by simp
        from loop_body_Break[OF Inr[unfolded Break]] obtain r' where
          g: "possibilities st1 = possibilities st" "collapsed st1 = collapsed st"
          and fm: "find_min_entropy_cell (possibilities st) (collapsed st) (random_state st)
                  = Inr (None, r')" by blast
        from find_min_None[OF fm sp sc]
        have "(\<forall>y x. inb w h y x \<longrightarrow> cell_at (collapsed st) y x)
            \<or> (\<exists>y x. inb w h y x \<and> cell_at (possibilities st) y x = [])" by blast
        with ok adj show ?thesis unfolding e g by blast
      next
        case (Continue st1)
        with True Inr "1.prems"(1) have rec: "wfc_loop g w h mx st1 = Inr st'" by simp
        note body = Inr[unfolded Continue]
        from evolves_ok[OF loop_body_evolves[OF body evolves_refl] refl refl ok tb]
        have ok1: "grid_ok g w h (possibilities st1) (collapsed st1)" by simp
        from loop_body_adj_ok[OF ok adj tb rs dist body]
        have adj1: "adj_ok g w h (possibilities st1) (collapsed st1)" .
        from "1.IH"[OF True Inr Continue rec ok1 adj1 tb rs dist] show ?thesis .
      qed
    qed
  qed
qed

lemma initial_adj_ok:
  "adj_ok g w h (possibilities (initial_state g w h r)) (collapsed (initial_state g w h r))"
proof -
  have "\<not> cell_at (replicate (nat h) (replicate (nat w) False)) y x" if "inb w h y x" for y x
    using cell_at_replicate[OF that, of False] by simp
  then show ?thesis unfolding adj_ok_def initial_state_def by auto
qed

lemma can_connect_labels:
  "can_connect ta tb d = Inr True \<longleftrightarrow> (\<exists>l. edges ta d = Some l \<and> edges tb (opposite d) = Some l)"
  by (auto simp: can_connect_def split: option.splits)

text \<open>
  C1, as the code has it. Provided the identifiers of the loaded catalog are pairwise
  distinct, in every grid returned by \<open>generate\<close> two cells next to each other hold
  compatible tiles: for a cell and its neighbour in direction d (north, south, east or
  west) the neighbour's identifier is in the table entry of the cell's identifier for d,
  and the edge label of the cell's tile towards d equals the label of the neighbour's
  tile on the opposite edge.
\<close>

theorem adjacent_cells_compatible:
  assumes "WFCGenerator_init doc = Inr g" and "distinct (map tile_id (tiles g))"
    and "generate sd g w h seed r = Inr grid"
    and "inb w h y x" and "inb w h (fst (neighbor d y x)) (snd (neighbor d y x))"
  shows "compatible g (cell_at grid y x) d
           (cell_at grid (fst (neighbor d y x)) (snd (neighbor d y x)))
       \<and> allowed (adjacency_rules g) (cell_at grid y x) d
           (cell_at grid (fst (neighbor d y x)) (snd (neighbor d y x)))
       \<and> (\<exists>ta tb l. tile_by_id g (cell_at grid y x) = Some ta
            \<and> tile_by_id g (cell_at grid (fst (neighbor d y x)) (snd (neighbor d y x))) = Some tb
            \<and> edges ta d = Some l \<and> edges tb (opposite d) = Some l)"
proof -
  let ?ny = "fst (neighbor d y x)" and ?nx = "snd (neighbor d y x)"
  note tb = init_fields(2)[OF assms(1)] and rs = init_fields(3)[OF assms(1)]
  note dist = assms(2) and i = assms(4) and n = assms(5)
  from assms(3) obtain st r0 where
    lp: "wfc_loop g w h (w * h * 100) (initial_state g w h r0) = Inr st"
    and cap: "iterations st < w * h * 100"
    and fg: "final_grid (possibilities st) w h = Inr grid"
    by (rule generate_success)
  from wfc_loop_adj_ok[OF lp initial_ok initial_adj_ok tb rs dist]
  have ok: "grid_ok g w h (possibilities st) (collapsed st)"
    and adj: "adj_ok g w h (possibilities st) (collapsed st)"
    and ex: "(\<forall>y x. inb w h y x \<longrightarrow> cell_at (collapsed st) y x)
          \<or> w * h * 100 \<le> iterations st
          \<or> (\<exists>y x. inb w h y x \<and> cell_at (possibilities st) y x = [])"
    by simp_all
  from ok have sp: "shaped w h (possibilities st)" by (simp add: grid_ok_def)
  note fc = final_grid_cells[OF fg sp]
  from ex cap fc(2) have all: "\<And>y x. inb w h y x \<Longrightarrow> cell_at (collapsed st) y x" by force
  from grid_ok_single[OF ok i all[OF i]] obtain t where t: "cell_at (possibilities st) y x = [t]"
    by blast
  from grid_ok_single[OF ok n all[OF n]] obtain t' where
    t': "cell_at (possibilities st) ?ny ?nx = [t']" by blast
  from fc(2)[OF i] t have gt: "cell_at grid y x = t" by simp
  from fc(2)[OF n] t' have gt': "cell_at grid ?ny ?nx = t'" by simp
  from adj_okD[OF adj i all[OF i] t n, of t'] t' have al: "allowed (adjacency_rules g) t d t'"
    by simp
  from grid_ok_ids[OF ok i] t obtain A where A: "A \<in> set (tiles g)" "t = tile_id A" by auto
  from grid_ok_ids[OF ok n] t' obtain B where B: "B \<in> set (tiles g)" "t' = tile_id B" by auto
  from al allowed_connect[OF rs dist A(1) B(1), of d] A(2) B(2)
  have cc: "can_connect A B d = Inr True" by simp
  from make_tile_by_id_distinct[OF dist A(1)] tb A(2) have ta: "tile_by_id g t = Some A" by simp
  from make_tile_by_id_distinct[OF dist B(1)] tb B(2) have tbb: "tile_by_id g t' = Some B" by simp
  from cc ta tbb have 1: "compatible g t d t'" unfolding compatible_def by blast
  from cc[unfolded can_connect_labels] ta tbb
  have 3: "\<exists>ta tb l. tile_by_id g t = Some ta \<and> tile_by_id g t' = Some tb
            \<and> edges ta d = Some l \<and> edges tb (opposite d) = Some l" by blast
  from 1 al 3 show ?thesis unfolding gt gt' by blast
qed

text \<open>C1 on the grid [[A, A]] returned for the scenario catalog: cell (0, 0) and its east neighbour.\<close>

theorem adjacent_cells_compatible_witness:
  "generate (\<lambda>s n. 0) grass_water_generator 2 1 None (\<lambda>n. 0) = Inr [[0, 0]]
   \<and> compatible grass_water_generator (cell_at [[0, 0]] 0 0) East (cell_at [[0, 0]] 0 1)
   \<and> allowed (adjacency_rules grass_water_generator) (cell_at [[0, 0]] 0 0) East
        (cell_at [[0, 0]] 0 1)"
proof -
  have d: "distinct (map tile_id (tiles grass_water_generator))"
    by (simp add: grass_water_generator_def grass_water_objects_def)
  have i: "inb 2 1 0 0" and n: "inb 2 1 (fst (neighbor East 0 0)) (snd (neighbor East 0 0))"
    by (simp_all add: inb_def)
  from adjacent_cells_compatible[OF init_grass_water d run_2x1_zero[of "\<lambda>s n. 0"] i n]
    run_2x1_zero[of "\<lambda>s n. 0"]
  show ?thesis by simp
qed

lemma shared_id_run:
  "generate (\<lambda>s n. 0) shared_id_generator 2 1 None (\<lambda>n. if n = 4 then 9007199254740991 else 0)
     = Inr [[0, 1]]"
  by code_simp

text \<open>
  C1 as the specification states it fails on a catalog the constructor accepts: with the
  identifier 1 shared by two tiles, a run returns the grid [[0, 1]], where the tile of
  identifier 0 has the label "a" on its east edge and the tile that the generator holds
  for identifier 1 has the label "b" on its west edge, and 0 is not in
  \<open>rules[1][west]\<close>.
\<close>

theorem shared_id_grid_invalid:
  "WFCGenerator_init shared_id_document = Inr shared_id_generator
   \<and> generate (\<lambda>s n. 0) shared_id_generator 2 1 None
        (\<lambda>n. if n = 4 then 9007199254740991 else 0) = Inr [[0, 1]]
   \<and> \<not> compatible shared_id_generator 0 East 1
   \<and> tile_by_id shared_id_generator 0 = Some (shared_id_objects ! 0)
   \<and> tile_by_id shared_id_generator 1 = Some (shared_id_objects ! 2)
   \<and> edges (shared_id_objects ! 0) East = Some ''a''
   \<and> edges (shared_id_objects ! 2) West = Some ''b''
   \<and> \<not> allowed (adjacency_rules shared_id_generator) 1 West 0"
  using init_shared_id shared_id_run
  by (simp add: compatible_def allowed_def shared_id_generator_def shared_id_objects_def
      shared_id_rules_def make_tile_by_id_def can_connect_def)

end
